theory Spec2Isabelle
  imports Main
begin

section \<open>Grid model (types/game.ts)\<close>

text \<open>
  A cell holds a colour index or \<open>null\<close> (here \<open>None\<close>) and the flag \<open>isFixed\<close>; the
  field \<open>value\<close> of the source is called \<open>cell_value\<close>. A grid is an array of rows of
  cells. Reading \<open>grid[row][col].value\<close> where the row or the cell is missing raises a
  TypeError in JavaScript, so every function that reads or writes cells returns
  \<open>error + result\<close>, with \<open>Inl TypeError\<close> for the exception.

  The repository holds two game-logic modules that export the same names. The
  definitions of the first one (the one with \<open>countSolutions\<close>) keep the source's names;
  those of the second one carry the suffix 2.
\<close>

datatype error = TypeError

record cell =
  cell_value :: "nat option"
  isFixed :: bool

type_synonym grid = "cell list list"

datatype difficulty = easy | medium | hard

definition createEmptyGrid :: grid where
  "createEmptyGrid = replicate 9 (replicate 9 \<lparr>cell_value = None, isFixed = False\<rparr>)"

definition cellAt :: "grid \<Rightarrow> nat \<Rightarrow> nat \<Rightarrow> error + cell" where
  "cellAt g row col =
     (if row < length g \<and> col < length (g ! row) then Inr (g ! row ! col) else Inl TypeError)"

text \<open>The assignments \<open>grid[row][col].value = v\<close> and \<open>grid[row][col].isFixed = b\<close>.\<close>

definition setValue :: "grid \<Rightarrow> nat \<Rightarrow> nat \<Rightarrow> nat option \<Rightarrow> error + grid" where
  "setValue g row col v =
     (if row < length g \<and> col < length (g ! row)
      then Inr (g[row := (g ! row)[col := (g ! row ! col)\<lparr>cell_value := v\<rparr>]])
      else Inl TypeError)"

definition setFixed :: "grid \<Rightarrow> nat \<Rightarrow> nat \<Rightarrow> bool \<Rightarrow> error + grid" where
  "setFixed g row col b =
     (if row < length g \<and> col < length (g ! row)
      then Inr (g[row := (g ! row)[col := (g ! row ! col)\<lparr>isFixed := b\<rparr>]])
      else Inl TypeError)"

text \<open>The loops \<open>if (grid[r][c].value === num) return false\<close> over a sequence of cells,
  read in the order of the list; the scan stops at the first cell that holds \<open>num\<close>.\<close>

fun noCellHolds :: "grid \<Rightarrow> nat \<Rightarrow> (nat \<times> nat) list \<Rightarrow> error + bool" where
  "noCellHolds g num [] = Inr True"
| "noCellHolds g num ((r, c) # ps) =
     (case cellAt g r c of
        Inl e \<Rightarrow> Inl e
      | Inr cl \<Rightarrow> if cell_value cl = Some num then Inr False else noCellHolds g num ps)"

text \<open>The cells of the nested loops \<open>for i < 3, for j < 3\<close> over a box, and of the nested
  loops \<open>for row < 9, for col < 9\<close> over the grid, in the order the loops visit them.\<close>

definition boxCells :: "nat \<Rightarrow> nat \<Rightarrow> (nat \<times> nat) list" where
  "boxCells startRow startCol =
     concat (map (\<lambda>i. map (\<lambda>j. (startRow + i, startCol + j)) [0..<3]) [0..<3])"

definition allCells :: "(nat \<times> nat) list" where
  "allCells = concat (map (\<lambda>row. map (\<lambda>col. (row, col)) [0..<9]) [0..<9])"

section \<open>The random source\<close>

text \<open>
  \<open>Math.random()\<close> yields a number in \<open>[0, 1)\<close>, so \<open>Math.floor(Math.random() * n)\<close> is
  an index below \<open>n\<close>. The random source is an arbitrary infinite sequence of naturals;
  a draw takes the head of the sequence modulo \<open>n\<close>, so every sequence of index choices
  is some outcome of the source.
\<close>

type_synonym rng = "nat \<Rightarrow> nat"

definition randomIndex :: "nat \<Rightarrow> rng \<Rightarrow> nat \<times> rng" where
  "randomIndex n rnd = (rnd 0 mod n, \<lambda>k. rnd (Suc k))"

text \<open>The shuffle loop \<open>for (i = length - 1; i > 0; i--) { j = floor(random() * (i + 1));
  [a[i], a[j]] = [a[j], a[i]] }\<close>, which the source writes out four times.\<close>

fun shuffleLoop :: "'a list \<Rightarrow> nat \<Rightarrow> rng \<Rightarrow> 'a list \<times> rng" where
  "shuffleLoop xs 0 rnd = (xs, rnd)"
| "shuffleLoop xs (Suc k) rnd =
     (case randomIndex (Suc k + 1) rnd of
        (j, rnd1) \<Rightarrow> shuffleLoop (xs[Suc k := xs ! j, j := xs ! Suc k]) k rnd1)"

definition shuffle :: "'a list \<Rightarrow> rng \<Rightarrow> 'a list \<times> rng" where
  "shuffle xs rnd = shuffleLoop xs (length xs - 1) rnd"

section \<open>First game-logic module\<close>

definition isValid :: "grid \<Rightarrow> nat \<Rightarrow> nat \<Rightarrow> nat \<Rightarrow> error + bool" where
  "isValid g row col num =
     noCellHolds g num
       (map (\<lambda>x. (row, x)) [0..<9] @ map (\<lambda>x. (x, col)) [0..<9] @
        boxCells (row - row mod 3) (col - col mod 3))"

fun firstEmpty :: "grid \<Rightarrow> (nat \<times> nat) list \<Rightarrow> error + (nat \<times> nat) option" where
  "firstEmpty g [] = Inr None"
| "firstEmpty g ((r, c) # ps) =
     (case cellAt g r c of
        Inl e \<Rightarrow> Inl e
      | Inr cl \<Rightarrow> if cell_value cl = None then Inr (Some (r, c)) else firstEmpty g ps)"

definition findEmptyCell :: "grid \<Rightarrow> error + (nat \<times> nat) option" where
  "findEmptyCell g = firstEmpty g allCells"

text \<open>
  \<open>countSolutions\<close> mutates the grid it is given, so the model returns the grid with the
  count; \<open>countLoop\<close> is its loop \<open>for (num = 0; num < 9; num++)\<close> with the running count
  \<open>solutions\<close>.
\<close>

function countSolutions :: "grid \<Rightarrow> int \<Rightarrow> error + (int \<times> grid)"
  and countLoop :: "grid \<Rightarrow> nat \<Rightarrow> nat \<Rightarrow> int \<Rightarrow> nat \<Rightarrow> int \<Rightarrow> error + (int \<times> grid)"
where
  "countSolutions g limit =
     (case findEmptyCell g of
        Inl e \<Rightarrow> Inl e
      | Inr None \<Rightarrow> Inr (1, g)
      | Inr (Some (row, col)) \<Rightarrow> countLoop g row col limit 0 0)"
| "countLoop g row col limit num solutions =
     (if num < 9 then
        (case isValid g row col num of
           Inl e \<Rightarrow> Inl e
         | Inr False \<Rightarrow> countLoop g row col limit (num + 1) solutions
         | Inr True \<Rightarrow>
            (case setValue g row col (Some num) of
               Inl e \<Rightarrow> Inl e
             | Inr g1 \<Rightarrow>
                (case countSolutions g1 (limit - solutions) of
                   Inl e \<Rightarrow> Inl e
                 | Inr (n, g2) \<Rightarrow>
                    (case setValue g2 row col None of
                       Inl e \<Rightarrow> Inl e
                     | Inr g3 \<Rightarrow>
                         if solutions + n \<ge> limit then Inr (solutions + n, g3)
                         else countLoop g3 row col limit (num + 1) (solutions + n)))))
      else Inr (solutions, g))"
  by pat_completeness auto

text \<open>
  \<open>generateSolution\<close> returns its boolean, the grid as it leaves it and the rest of the
  random source; \<open>tryNumbers\<close> is its loop \<open>for (const num of numbers)\<close>.
\<close>

function generateSolution :: "grid \<Rightarrow> rng \<Rightarrow> error + (bool \<times> grid \<times> rng)"
  and tryNumbers :: "grid \<Rightarrow> nat \<Rightarrow> nat \<Rightarrow> nat list \<Rightarrow> rng \<Rightarrow> error + (bool \<times> grid \<times> rng)"
where
  "generateSolution g rnd =
     (case findEmptyCell g of
        Inl e \<Rightarrow> Inl e
      | Inr None \<Rightarrow> Inr (True, g, rnd)
      | Inr (Some (row, col)) \<Rightarrow>
          (case shuffle [0..<9] rnd of
             (numbers, rnd1) \<Rightarrow> tryNumbers g row col numbers rnd1))"
| "tryNumbers g row col [] rnd = Inr (False, g, rnd)"
| "tryNumbers g row col (num # rest) rnd =
     (case isValid g row col num of
        Inl e \<Rightarrow> Inl e
      | Inr False \<Rightarrow> tryNumbers g row col rest rnd
      | Inr True \<Rightarrow>
         (case setValue g row col (Some num) of
            Inl e \<Rightarrow> Inl e
          | Inr g1 \<Rightarrow>
             (case generateSolution g1 rnd of
                Inl e \<Rightarrow> Inl e
              | Inr (ok, g2, rnd2) \<Rightarrow>
                  if ok then Inr (True, g2, rnd2)
                  else (case setValue g2 row col None of
                          Inl e \<Rightarrow> Inl e
                        | Inr g3 \<Rightarrow> tryNumbers g3 row col rest rnd2))))"
  by pat_completeness auto

definition cellsToRemove :: "difficulty \<Rightarrow> nat" where
  "cellsToRemove d = (case d of easy \<Rightarrow> 40 | medium \<Rightarrow> 50 | hard \<Rightarrow> 60)"

fun setFixedCells :: "grid \<Rightarrow> (nat \<times> nat) list \<Rightarrow> bool \<Rightarrow> error + grid" where
  "setFixedCells g [] b = Inr g"
| "setFixedCells g ((i, j) # ps) b =
     (case setFixed g i j b of Inl e \<Rightarrow> Inl e | Inr g1 \<Rightarrow> setFixedCells g1 ps b)"

text \<open>The removal loop \<open>for (const pos of positions)\<close> of \<open>generatePuzzle\<close>, with the
  counter \<open>removed\<close>; \<open>countSolutions(grid)\<close> is called with its default limit 2.\<close>

fun removeCells :: "grid \<Rightarrow> nat list \<Rightarrow> nat \<Rightarrow> nat \<Rightarrow> error + grid" where
  "removeCells g [] removed target = Inr g"
| "removeCells g (pos # rest) removed target =
     (if removed \<ge> target then Inr g
      else
        (case cellAt g (pos div 9) (pos mod 9) of
           Inl e \<Rightarrow> Inl e
         | Inr cl \<Rightarrow>
            (case setValue g (pos div 9) (pos mod 9) None of
               Inl e \<Rightarrow> Inl e
             | Inr g1 \<Rightarrow>
                (case setFixed g1 (pos div 9) (pos mod 9) False of
                   Inl e \<Rightarrow> Inl e
                 | Inr g2 \<Rightarrow>
                    (case countSolutions g2 2 of
                       Inl e \<Rightarrow> Inl e
                     | Inr (solutions, g3) \<Rightarrow>
                         if solutions \<noteq> 1 then
                           (case setValue g3 (pos div 9) (pos mod 9) (cell_value cl) of
                              Inl e \<Rightarrow> Inl e
                            | Inr g4 \<Rightarrow>
                               (case setFixed g4 (pos div 9) (pos mod 9) True of
                                  Inl e \<Rightarrow> Inl e
                                | Inr g5 \<Rightarrow> removeCells g5 rest removed target))
                         else removeCells g3 rest (removed + 1) target)))))"

definition generatePuzzle :: "difficulty \<Rightarrow> rng \<Rightarrow> error + grid" where
  "generatePuzzle d rnd =
     (case generateSolution createEmptyGrid rnd of
        Inl e \<Rightarrow> Inl e
      | Inr (ok, g, rnd1) \<Rightarrow>
         (case setFixedCells g allCells True of
            Inl e \<Rightarrow> Inl e
          | Inr g1 \<Rightarrow>
             (case shuffle [0..<81] rnd1 of
                (positions, rnd2) \<Rightarrow> removeCells g1 positions 0 (cellsToRemove d))))"

text \<open>
  \<open>checkWin\<close>: the first pair of loops returns false at the first empty cell; the second
  collects, for every \<open>i\<close>, the values of row \<open>i\<close>, column \<open>i\<close> and box \<open>i\<close> in three sets
  and compares their sizes with 9. The size of a set is the number of distinct values
  added to it.
\<close>

fun noCellEmpty :: "grid \<Rightarrow> (nat \<times> nat) list \<Rightarrow> error + bool" where
  "noCellEmpty g [] = Inr True"
| "noCellEmpty g ((i, j) # ps) =
     (case cellAt g i j of
        Inl e \<Rightarrow> Inl e
      | Inr cl \<Rightarrow> if cell_value cl = None then Inr False else noCellEmpty g ps)"

fun valuesAt :: "grid \<Rightarrow> (nat \<times> nat) list \<Rightarrow> error + nat option list" where
  "valuesAt g [] = Inr []"
| "valuesAt g ((i, j) # ps) =
     (case cellAt g i j of
        Inl e \<Rightarrow> Inl e
      | Inr cl \<Rightarrow> (case valuesAt g ps of Inl e \<Rightarrow> Inl e | Inr vs \<Rightarrow> Inr (cell_value cl # vs)))"

definition setSize :: "'a list \<Rightarrow> nat" where
  "setSize vs = length (remdups vs)"

fun checkUnits :: "grid \<Rightarrow> nat list \<Rightarrow> error + bool" where
  "checkUnits g [] = Inr True"
| "checkUnits g (i # rest) =
     (case valuesAt g (map (\<lambda>j. (i, j)) [0..<9]) of
        Inl e \<Rightarrow> Inl e
      | Inr rowNums \<Rightarrow>
         (case valuesAt g (map (\<lambda>j. (j, i)) [0..<9]) of
            Inl e \<Rightarrow> Inl e
          | Inr colNums \<Rightarrow>
             (case valuesAt g (map (\<lambda>j. (i div 3 * 3 + j div 3, i mod 3 * 3 + j mod 3)) [0..<9]) of
                Inl e \<Rightarrow> Inl e
              | Inr boxNums \<Rightarrow>
                  if setSize rowNums \<noteq> 9 \<or> setSize colNums \<noteq> 9 \<or> setSize boxNums \<noteq> 9
                  then Inr False
                  else checkUnits g rest)))"

definition checkWin :: "grid \<Rightarrow> error + bool" where
  "checkWin g =
     (case noCellEmpty g allCells of
        Inl e \<Rightarrow> Inl e
      | Inr filled \<Rightarrow> if \<not> filled then Inr False else checkUnits g [0..<9])"

definition checkPlacement :: "grid \<Rightarrow> nat \<Rightarrow> nat \<Rightarrow> nat \<Rightarrow> error + bool" where
  "checkPlacement g row col v =
     noCellHolds g v
       (map (\<lambda>x. (row, x)) (filter (\<lambda>x. x \<noteq> col) [0..<9]) @
        map (\<lambda>x. (x, col)) (filter (\<lambda>x. x \<noteq> row) [0..<9]) @
        filter (\<lambda>(r, c). r \<noteq> row \<or> c \<noteq> col) (boxCells (row - row mod 3) (col - col mod 3)))"

section \<open>Second game-logic module\<close>

definition checkPlacement2 :: "grid \<Rightarrow> nat \<Rightarrow> nat \<Rightarrow> nat \<Rightarrow> error + bool" where
  "checkPlacement2 g row col v =
     noCellHolds g v
       (map (\<lambda>i. (row, i)) (filter (\<lambda>i. i \<noteq> col) [0..<9]) @
        map (\<lambda>i. (i, col)) (filter (\<lambda>i. i \<noteq> row) [0..<9]) @
        filter (\<lambda>(r, c). r \<noteq> row \<and> c \<noteq> col) (boxCells (row div 3 * 3) (col div 3 * 3)))"

definition checkWin2 :: "grid \<Rightarrow> error + bool" where
  "checkWin2 g = noCellEmpty g allCells"

text \<open>
  \<open>solveGrid\<close> is written twice in the repository with the same body: in the second
  game-logic module, calling that module's \<open>checkPlacement\<close>, and inside \<open>handleSolve\<close> of
  the game component, calling the \<open>checkPlacement\<close> the component imports. The model
  takes the placement check as the parameter \<open>chk\<close>. The scan for the first empty cell
  (\<open>row\<close>, \<open>col\<close>, \<open>isEmpty\<close> and the two \<open>break\<close>s) reads the cells that \<open>findEmptyCell\<close>
  reads and stops where it stops. \<open>solveLoop\<close> is the loop \<open>for (num = 0; num < 9; num++)\<close>.
\<close>

function solveGridWith :: "(grid \<Rightarrow> nat \<Rightarrow> nat \<Rightarrow> nat \<Rightarrow> error + bool) \<Rightarrow> grid \<Rightarrow> error + (bool \<times> grid)"
  and solveLoop :: "(grid \<Rightarrow> nat \<Rightarrow> nat \<Rightarrow> nat \<Rightarrow> error + bool) \<Rightarrow> grid \<Rightarrow> nat \<Rightarrow> nat \<Rightarrow> nat
        \<Rightarrow> error + (bool \<times> grid)"
where
  "solveGridWith chk g =
     (case findEmptyCell g of
        Inl e \<Rightarrow> Inl e
      | Inr None \<Rightarrow> Inr (True, g)
      | Inr (Some (row, col)) \<Rightarrow> solveLoop chk g row col 0)"
| "solveLoop chk g row col num =
     (if num < 9 then
        (case chk g row col num of
           Inl e \<Rightarrow> Inl e
         | Inr False \<Rightarrow> solveLoop chk g row col (num + 1)
         | Inr True \<Rightarrow>
            (case setValue g row col (Some num) of
               Inl e \<Rightarrow> Inl e
             | Inr g1 \<Rightarrow>
                (case solveGridWith chk g1 of
                   Inl e \<Rightarrow> Inl e
                 | Inr (ok, g2) \<Rightarrow>
                     if ok then Inr (True, g2)
                     else (case setValue g2 row col None of
                             Inl e \<Rightarrow> Inl e
                           | Inr g3 \<Rightarrow> solveLoop chk g3 row col (num + 1)))))
      else Inr (False, g))"
  by pat_completeness auto

text \<open>
  \<open>findSolutions\<close> mutates the grid and pushes a deep copy of every full grid it reaches
  onto \<open>solutions\<close>; \<open>findLoop\<close> is its loop over \<open>num\<close>.
\<close>

function findSolutions :: "grid \<Rightarrow> grid list \<Rightarrow> error + (grid \<times> grid list)"
  and findLoop :: "grid \<Rightarrow> nat \<Rightarrow> nat \<Rightarrow> nat \<Rightarrow> grid list \<Rightarrow> error + (grid \<times> grid list)"
where
  "findSolutions g solutions =
     (case findEmptyCell g of
        Inl e \<Rightarrow> Inl e
      | Inr None \<Rightarrow> Inr (g, solutions @ [g])
      | Inr (Some (row, col)) \<Rightarrow> findLoop g row col 0 solutions)"
| "findLoop g row col num solutions =
     (if num < 9 then
        (case checkPlacement2 g row col num of
           Inl e \<Rightarrow> Inl e
         | Inr False \<Rightarrow> findLoop g row col (num + 1) solutions
         | Inr True \<Rightarrow>
            (case setValue g row col (Some num) of
               Inl e \<Rightarrow> Inl e
             | Inr g1 \<Rightarrow>
                (case findSolutions g1 solutions of
                   Inl e \<Rightarrow> Inl e
                 | Inr (g2, solutions1) \<Rightarrow>
                    (case setValue g2 row col None of
                       Inl e \<Rightarrow> Inl e
                     | Inr g3 \<Rightarrow>
                         if length solutions1 > 1 then Inr (g3, solutions1)
                         else findLoop g3 row col (num + 1) solutions1))))
      else Inr (g, solutions))"
  by pat_completeness auto

definition solveGrid :: "grid \<Rightarrow> error + (bool \<times> grid)" where
  "solveGrid g = solveGridWith checkPlacement2 g"

definition hasUniqueSolution :: "grid \<Rightarrow> error + bool" where
  "hasUniqueSolution g =
     (case findSolutions g [] of
        Inl e \<Rightarrow> Inl e
      | Inr (g1, solutions) \<Rightarrow> Inr (length solutions = 1))"

fun setValues :: "grid \<Rightarrow> ((nat \<times> nat) \<times> nat) list \<Rightarrow> error + grid" where
  "setValues g [] = Inr g"
| "setValues g (((r, c), v) # rest) =
     (case setValue g r c (Some v) of Inl e \<Rightarrow> Inl e | Inr g1 \<Rightarrow> setValues g1 rest)"

definition fillBox :: "grid \<Rightarrow> nat \<Rightarrow> nat \<Rightarrow> rng \<Rightarrow> error + (grid \<times> rng)" where
  "fillBox g startRow startCol rnd =
     (case shuffle [0..<9] rnd of
        (numbers, rnd1) \<Rightarrow>
          (case setValues g (zip (boxCells startRow startCol) numbers) of
             Inl e \<Rightarrow> Inl e
           | Inr g1 \<Rightarrow> Inr (g1, rnd1)))"

fun fillBoxes :: "grid \<Rightarrow> nat list \<Rightarrow> rng \<Rightarrow> error + (grid \<times> rng)" where
  "fillBoxes g [] rnd = Inr (g, rnd)"
| "fillBoxes g (i # rest) rnd =
     (case fillBox g i i rnd of Inl e \<Rightarrow> Inl e | Inr (g1, rnd1) \<Rightarrow> fillBoxes g1 rest rnd1)"

text \<open>The removal loop \<open>for (i = 0; i < cellsToRemove; i++)\<close> over \<open>positions[i]\<close>;
  \<open>hasUniqueSolution\<close> runs on a deep copy, so the grid of the loop is not touched by it.\<close>

fun removeCells2 :: "grid \<Rightarrow> (nat \<times> nat) list \<Rightarrow> error + grid" where
  "removeCells2 g [] = Inr g"
| "removeCells2 g ((row, col) # rest) =
     (case cellAt g row col of
        Inl e \<Rightarrow> Inl e
      | Inr cl \<Rightarrow>
         (case setValue g row col None of
            Inl e \<Rightarrow> Inl e
          | Inr g1 \<Rightarrow>
             (case hasUniqueSolution g1 of
                Inl e \<Rightarrow> Inl e
              | Inr unique \<Rightarrow>
                  if \<not> unique then
                    (case setValue g1 row col (cell_value cl) of
                       Inl e \<Rightarrow> Inl e
                     | Inr g2 \<Rightarrow> removeCells2 g2 rest)
                  else removeCells2 g1 rest)))"

fun fixFilledCells :: "grid \<Rightarrow> (nat \<times> nat) list \<Rightarrow> error + grid" where
  "fixFilledCells g [] = Inr g"
| "fixFilledCells g ((row, col) # ps) =
     (case cellAt g row col of
        Inl e \<Rightarrow> Inl e
      | Inr cl \<Rightarrow>
          if cell_value cl \<noteq> None
          then (case setFixed g row col True of Inl e \<Rightarrow> Inl e | Inr g1 \<Rightarrow> fixFilledCells g1 ps)
          else fixFilledCells g ps)"

text \<open>The value of \<open>solveGrid(grid)\<close> is dropped by \<open>generatePuzzle\<close>; the grid goes on as
  \<open>solveGrid\<close> left it.\<close>

definition filledGrid2 :: "rng \<Rightarrow> error + ((bool \<times> grid) \<times> rng)" where
  "filledGrid2 rnd =
     (case fillBoxes createEmptyGrid [0, 3, 6] rnd of
        Inl e \<Rightarrow> Inl e
      | Inr (g1, rnd1) \<Rightarrow>
         (case solveGrid g1 of Inl e \<Rightarrow> Inl e | Inr res \<Rightarrow> Inr (res, rnd1)))"

definition generatePuzzle2 :: "difficulty \<Rightarrow> rng \<Rightarrow> error + grid" where
  "generatePuzzle2 d rnd =
     (case filledGrid2 rnd of
        Inl e \<Rightarrow> Inl e
      | Inr ((ok, g2), rnd1) \<Rightarrow>
         (case shuffle allCells rnd1 of
            (positions, rnd2) \<Rightarrow>
              (case removeCells2 g2 (take (cellsToRemove d) positions) of
                 Inl e \<Rightarrow> Inl e
               | Inr g3 \<Rightarrow> fixFilledCells g3 allCells)))"

section \<open>The game component (player operations)\<close>

text \<open>
  The component keeps \<open>grid\<close>, \<open>selectedCell\<close> (as \<open>[x, y]\<close>: column, then row),
  \<open>selectedColor\<close>, \<open>isComplete\<close> and \<open>errorCell\<close> as React state. A handler reads the state
  of the last render and its \<open>set...\<close> calls take effect together, in call order, once it
  returns; a handler is therefore a function from the state it reads to the state after
  it. The component imports \<open>checkPlacement\<close> and \<open>checkWin\<close> from the game-logic module;
  the handlers take them as the parameters \<open>chk\<close> and \<open>win\<close>. The repository holds two
  versions of the component: the handlers of the file whose name is not known keep the
  source's names, those of components/mejiku-game.tsx carry the suffix 2
  (\<open>handleSolve\<close> is the same in both). Animation and sizing state is left out.
\<close>

record ui =
  grid :: grid
  selectedCell :: "(nat \<times> nat) option"
  selectedColor :: "nat option"
  isComplete :: bool
  errorCell :: "(nat \<times> nat) option"

text \<open>\<open>newGrid = [...grid.map(row => [...row])]; newGrid[y][x] = {...newGrid[y][x], value: v}\<close>
  copies the rows and replaces one cell; on values this is \<open>setValue\<close>.\<close>

text \<open>\<open>mousePressed\<close>, from the point where \<open>cellX\<close> and \<open>cellY\<close> are computed (a click left of
  or above the grid changes nothing).\<close>

definition mousePressed :: "ui \<Rightarrow> nat \<Rightarrow> nat \<Rightarrow> error + ui" where
  "mousePressed s cellX cellY =
     (if cellX < 9 \<and> cellY < 9 then
        (case cellAt (grid s) cellY cellX of
           Inl e \<Rightarrow> Inl e
         | Inr cl \<Rightarrow> if \<not> isFixed cl then Inr (s\<lparr>selectedCell := Some (cellX, cellY)\<rparr>) else Inr s)
      else Inr s)"

definition handleColorSelect ::
  "(grid \<Rightarrow> nat \<Rightarrow> nat \<Rightarrow> nat \<Rightarrow> error + bool) \<Rightarrow> (grid \<Rightarrow> error + bool) \<Rightarrow> ui \<Rightarrow> nat \<Rightarrow> error + ui" where
  "handleColorSelect chk win s colorIndex =
     (case selectedCell s of
        None \<Rightarrow> Inr s
      | Some (x, y) \<Rightarrow>
         (case cellAt (grid s) y x of
            Inl e \<Rightarrow> Inl e
          | Inr cl \<Rightarrow>
              if isFixed cl then Inr s
              else
                (case setValue (grid s) y x (Some colorIndex) of
                   Inl e \<Rightarrow> Inl e
                 | Inr newGrid \<Rightarrow>
                    (case chk newGrid y x colorIndex of
                       Inl e \<Rightarrow> Inl e
                     | Inr valid \<Rightarrow>
                        (case win newGrid of
                           Inl e \<Rightarrow> Inl e
                         | Inr won \<Rightarrow>
                             Inr (s\<lparr>grid := newGrid,
                                    errorCell := (if \<not> valid then Some (x, y) else None),
                                    isComplete := (if won then True else isComplete s)\<rparr>))))))"

definition handleColorSelect2 ::
  "(grid \<Rightarrow> nat \<Rightarrow> nat \<Rightarrow> nat \<Rightarrow> error + bool) \<Rightarrow> (grid \<Rightarrow> error + bool) \<Rightarrow> ui \<Rightarrow> nat \<Rightarrow> error + ui" where
  "handleColorSelect2 chk win s colorIndex =
     (case selectedCell s of
        None \<Rightarrow> Inr s
      | Some (x, y) \<Rightarrow>
         (case cellAt (grid s) y x of
            Inl e \<Rightarrow> Inl e
          | Inr cl \<Rightarrow>
              if isFixed cl then Inr s
              else if cell_value cl = Some colorIndex then
                (case setValue (grid s) y x None of
                   Inl e \<Rightarrow> Inl e
                 | Inr newGrid \<Rightarrow>
                     Inr (s\<lparr>grid := newGrid, selectedCell := None, selectedColor := None\<rparr>))
              else
                (case setValue (grid s) y x (Some colorIndex) of
                   Inl e \<Rightarrow> Inl e
                 | Inr newGrid \<Rightarrow>
                    (case chk newGrid y x colorIndex of
                       Inl e \<Rightarrow> Inl e
                     | Inr valid \<Rightarrow>
                        (case win newGrid of
                           Inl e \<Rightarrow> Inl e
                         | Inr won \<Rightarrow>
                             Inr (s\<lparr>grid := newGrid,
                                    selectedColor := Some colorIndex,
                                    errorCell := (if \<not> valid then Some (x, y) else None),
                                    isComplete := (if won then True else isComplete s)\<rparr>))))))"

text \<open>In \<open>mousePressed\<close> of components/mejiku-game.tsx the call \<open>handleColorSelect(selectedColor)\<close>
  reads the state of the last render, so it acts on the cell selected before the click;
  \<open>setSelectedCell([cellX, cellY])\<close> comes before its calls, which win where it makes any.\<close>

definition mousePressed2 ::
  "(grid \<Rightarrow> nat \<Rightarrow> nat \<Rightarrow> nat \<Rightarrow> error + bool) \<Rightarrow> (grid \<Rightarrow> error + bool) \<Rightarrow> ui \<Rightarrow> nat \<Rightarrow> nat \<Rightarrow> error + ui" where
  "mousePressed2 chk win s cellX cellY =
     (if cellX < 9 \<and> cellY < 9 then
        (case cellAt (grid s) cellY cellX of
           Inl e \<Rightarrow> Inl e
         | Inr cl \<Rightarrow>
             if \<not> isFixed cl then
               if selectedCell s = Some (cellX, cellY) then
                 (case setValue (grid s) cellY cellX None of
                    Inl e \<Rightarrow> Inl e
                  | Inr newGrid \<Rightarrow>
                      Inr (s\<lparr>grid := newGrid, selectedCell := None, selectedColor := None\<rparr>))
               else
                 (case selectedColor s of
                    None \<Rightarrow> Inr (s\<lparr>selectedCell := Some (cellX, cellY)\<rparr>)
                  | Some color \<Rightarrow>
                     (case handleColorSelect2 chk win s color of
                        Inl e \<Rightarrow> Inl e
                      | Inr s1 \<Rightarrow>
                          Inr (if selectedCell s1 = selectedCell s
                               then s1\<lparr>selectedCell := Some (cellX, cellY)\<rparr> else s1)))
             else Inr s)
      else Inr s)"

text \<open>\<open>handleSolve\<close>: the copy marks every cell that holds a value as fixed, the local
  \<open>solveGrid\<close> runs on the copy, and the state changes only when it returns true.\<close>

definition markFilled :: "grid \<Rightarrow> grid" where
  "markFilled g = map (map (\<lambda>cl. cl\<lparr>isFixed := (cell_value cl \<noteq> None)\<rparr>)) g"

definition handleSolve :: "(grid \<Rightarrow> nat \<Rightarrow> nat \<Rightarrow> nat \<Rightarrow> error + bool) \<Rightarrow> ui \<Rightarrow> error + ui" where
  "handleSolve chk s =
     (case solveGridWith chk (markFilled (grid s)) of
        Inl e \<Rightarrow> Inl e
      | Inr (ok, newGrid) \<Rightarrow>
          if ok then Inr (s\<lparr>grid := newGrid, selectedCell := None, selectedColor := None\<rparr>)
          else Inr s)"

datatype event = MousePressed nat nat | ColorSelect nat | Solve

fun playerStep ::
  "(grid \<Rightarrow> nat \<Rightarrow> nat \<Rightarrow> nat \<Rightarrow> error + bool) \<Rightarrow> (grid \<Rightarrow> error + bool) \<Rightarrow> ui \<Rightarrow> event \<Rightarrow> error + ui" where
  "playerStep chk win s (MousePressed cellX cellY) = mousePressed s cellX cellY"
| "playerStep chk win s (ColorSelect colorIndex) = handleColorSelect chk win s colorIndex"
| "playerStep chk win s Solve = handleSolve chk s"

fun playerStep2 ::
  "(grid \<Rightarrow> nat \<Rightarrow> nat \<Rightarrow> nat \<Rightarrow> error + bool) \<Rightarrow> (grid \<Rightarrow> error + bool) \<Rightarrow> ui \<Rightarrow> event \<Rightarrow> error + ui" where
  "playerStep2 chk win s (MousePressed cellX cellY) = mousePressed2 chk win s cellX cellY"
| "playerStep2 chk win s (ColorSelect colorIndex) = handleColorSelect2 chk win s colorIndex"
| "playerStep2 chk win s Solve = handleSolve chk s"

fun play ::
  "(ui \<Rightarrow> event \<Rightarrow> error + ui) \<Rightarrow> ui \<Rightarrow> event list \<Rightarrow> error + ui" where
  "play step s [] = Inr s"
| "play step s (ev # evs) = (case step s ev of Inl e \<Rightarrow> Inl e | Inr s1 \<Rightarrow> play step s1 evs)"

section \<open>Termination of the searches\<close>

text \<open>
  Every search writes a value into the first empty cell before it calls itself, and it
  continues its loop on the grid the call returns. The calls leave the grid as they
  found it (which is what makes the loops terminate), so the number of empty cells
  decreases from call to call.
\<close>

definition emptyCount :: "grid \<Rightarrow> nat" where
  "emptyCount g = sum_list (map (\<lambda>row. length (filter (\<lambda>cl. cell_value cl = None) row)) g)"

definition othersEmpty :: "grid \<Rightarrow> nat \<Rightarrow> nat \<Rightarrow> nat" where
  "othersEmpty g row col =
     (case setValue g row col (Some 0) of Inl e \<Rightarrow> emptyCount g | Inr g1 \<Rightarrow> emptyCount g1)"

lemma firstEmpty_Some:
  "firstEmpty g ps = Inr (Some (r, c)) \<Longrightarrow>
   r < length g \<and> c < length (g ! r) \<and> cell_value (g ! r ! c) = None"
  by (induction ps) (auto simp: cellAt_def split: if_splits sum.splits)

lemma findEmptyCell_Some:
  "findEmptyCell g = Inr (Some (r, c)) \<Longrightarrow>
   r < length g \<and> c < length (g ! r) \<and> cell_value (g ! r ! c) = None"
  unfolding findEmptyCell_def by (rule firstEmpty_Some)

lemma count_filter_update:
  "c < length ys \<Longrightarrow>
   length (filter P (ys[c := y])) + (if P (ys ! c) then 1 else 0) =
   length (filter P ys) + (if P y then 1 else 0)"
proof (induction ys arbitrary: c)
  case Nil
  then show ?case by simp
next
  case (Cons a ys)
  show ?case
  proof (cases c)
    case 0
    then show ?thesis by simp
  next
    case (Suc k)
    then have "k < length ys"
      using Cons.prems by simp
    from Cons.IH [OF this] show ?thesis
      using Suc by simp
  qed
qed

lemma sum_list_update_nat:
  "i < length (xs::nat list) \<Longrightarrow> sum_list (xs[i := x]) + xs ! i = sum_list xs + x"
  by (induction xs arbitrary: i) (auto split: nat.splits)

lemma emptyCount_update:
  assumes "r < length g" "c < length (g ! r)"
  shows "emptyCount (g[r := (g ! r)[c := cl]]) + (if cell_value (g ! r ! c) = None then 1 else 0) =
         emptyCount g + (if cell_value cl = None then 1 else 0)"
proof -
  let ?f = "\<lambda>row. length (filter (\<lambda>cl. cell_value cl = None) row)"
  have "sum_list ((map ?f g)[r := ?f ((g ! r)[c := cl])]) + (map ?f g) ! r =
        sum_list (map ?f g) + ?f ((g ! r)[c := cl])"
    using assms(1) by (intro sum_list_update_nat) simp
  moreover have "?f ((g ! r)[c := cl]) + (if cell_value (g ! r ! c) = None then 1 else 0) =
        ?f (g ! r) + (if cell_value cl = None then 1 else 0)"
    using assms(2) by (rule count_filter_update)
  ultimately show ?thesis
    using assms(1) by (simp add: emptyCount_def map_update)
qed

lemma setValue_Inr:
  "setValue g r c v = Inr g1 \<Longrightarrow>
   r < length g \<and> c < length (g ! r) \<and> g1 = g[r := (g ! r)[c := (g ! r ! c)\<lparr>cell_value := v\<rparr>]]"
  by (auto simp: setValue_def split: if_splits)

lemma setValue_twice:
  "setValue g r c a = Inr g1 \<Longrightarrow> setValue g1 r c b = setValue g r c b"
  by (auto simp: setValue_def split: if_splits)

lemma setValue_same:
  assumes "r < length g" "c < length (g ! r)" "cell_value (g ! r ! c) = v"
  shows "setValue g r c v = Inr g"
proof -
  have "(g ! r ! c)\<lparr>cell_value := v\<rparr> = g ! r ! c"
    using assms(3) by (cases "g ! r ! c") auto
  then show ?thesis
    using assms(1,2) by (simp add: setValue_def)
qed

lemma setValue_found:
  "findEmptyCell g = Inr (Some (r, c)) \<Longrightarrow> setValue g r c None = Inr g"
  using findEmptyCell_Some [of g r c] by (simp add: setValue_same)

lemma emptyCount_setValue_Some:
  "setValue g r c (Some v) = Inr g1 \<Longrightarrow> emptyCount g1 = othersEmpty g r c"
  using emptyCount_update [of r g c "(g ! r ! c)\<lparr>cell_value := Some v\<rparr>"]
        emptyCount_update [of r g c "(g ! r ! c)\<lparr>cell_value := Some 0\<rparr>"]
  by (auto simp: othersEmpty_def setValue_def split: if_splits)

lemma othersEmpty_setValue:
  assumes "setValue g r c a = Inr g1"
  shows "othersEmpty g1 r c = othersEmpty g r c"
proof -
  have "\<exists>g0. setValue g r c (Some 0) = Inr g0"
    using setValue_Inr [OF assms] by (simp add: setValue_def)
  then show ?thesis
    using setValue_twice [OF assms, of "Some 0"] by (auto simp: othersEmpty_def)
qed

lemma othersEmpty_less:
  "findEmptyCell g = Inr (Some (r, c)) \<Longrightarrow> othersEmpty g r c < emptyCount g"
  using emptyCount_update [of r g c "(g ! r ! c)\<lparr>cell_value := Some 0\<rparr>"]
  by (auto simp: othersEmpty_def setValue_def dest!: findEmptyCell_Some split: if_splits)

text \<open>After a call on \<open>g1\<close>, the grid with the tried value in \<open>(row, col)\<close>, has given that
  grid back, clearing the cell gives the loop the grid it had, up to that cell.\<close>

lemma loop_step_restores:
  assumes "setValue g row col a = Inr g1" "setValue g1 row col None = Inr g3"
    and "g' = g3 \<or> setValue g3 row col None = Inr g'"
  shows "g' = g \<or> setValue g row col None = Inr g'"
  using assms setValue_twice [OF assms(1), of None] setValue_twice [OF assms(2), of None]
  by auto

lemma loop_step_measure:
  assumes "setValue g row col a = Inr g1" "setValue g1 row col None = Inr g3"
  shows "othersEmpty g3 row col = othersEmpty g row col"
  using othersEmpty_setValue [OF assms(1)] othersEmpty_setValue [OF assms(2)] by simp

lemma countSolutions_restores_dom:
  "countSolutions_countLoop_dom (Inl (g, limit)) \<Longrightarrow>
     countSolutions g limit = Inr (n, g') \<Longrightarrow> g' = g"
  "countSolutions_countLoop_dom (Inr (g, row, col, limit, num, solutions)) \<Longrightarrow>
     countLoop g row col limit num solutions = Inr (n, g') \<Longrightarrow>
     g' = g \<or> setValue g row col None = Inr g'"
proof (induction g limit and g row col limit num solutions arbitrary: n g' and n g'
       rule: countSolutions_countLoop.pinduct)
  case (1 g limit)
  note eq = "1.prems" [unfolded countSolutions.psimps [OF "1.hyps"]]
  show ?case
  proof (cases "findEmptyCell g")
    case (Inl e)
    then show ?thesis using eq by simp
  next
    case (Inr found)
    show ?thesis
    proof (cases found)
      case None
      then show ?thesis using eq Inr by simp
    next
      case (Some p)
      obtain row col where p: "p = (row, col)"
        by (cases p)
      have fe: "findEmptyCell g = Inr (Some (row, col))"
        using Inr Some p by simp
      have "countLoop g row col limit 0 0 = Inr (n, g')"
        using eq fe by simp
      from "1.IH" [OF Inr Some p [symmetric] this]
      show ?thesis
        using setValue_found [OF fe] by auto
    qed
  qed
next
  case (2 g row col limit num solutions)
  note eq = "2.prems" [unfolded countLoop.psimps [OF "2.hyps"]]
  show ?case
  proof (cases "num < 9")
    case False
    then show ?thesis using eq by simp
  next
    case lt: True
    show ?thesis
    proof (cases "isValid g row col num")
      case (Inl e)
      then show ?thesis using eq lt by simp
    next
      case (Inr b)
      show ?thesis
      proof (cases b)
        case False
        then have bF: "b = False"
          by simp
        then have "countLoop g row col limit (num + 1) solutions = Inr (n, g')"
          using eq lt Inr by simp
        from "2.IH"(3) [OF lt Inr bF this] show ?thesis .
      next
        case True
        then have bT: "b = True"
          by simp
        show ?thesis
        proof (cases "setValue g row col (Some num)")
          case (Inl e)
          then show ?thesis using eq lt Inr True by simp
        next
          case g1: (Inr g1)
          show ?thesis
          proof (cases "countSolutions g1 (limit - solutions)")
            case (Inl e)
            then show ?thesis using eq lt Inr True g1 by simp
          next
            case call: (Inr res)
            obtain m g2 where res: "res = (m, g2)"
              by (cases res)
            have g2: "g2 = g1"
              using "2.IH"(1) [OF lt Inr bT g1] call res by simp
            show ?thesis
            proof (cases "setValue g1 row col None")
              case (Inl e)
              then show ?thesis using eq lt Inr True g1 call res g2 by simp
            next
              case g3: (Inr g3)
              show ?thesis
              proof (cases "limit \<le> solutions + m")
                case True
                then have "g' = g3"
                  using eq lt Inr bT g1 call res g2 g3 by simp
                then show ?thesis
                  using loop_step_restores [OF g1 g3] by simp
              next
                case False
                then have run: "countLoop g3 row col limit (num + 1) (solutions + m) = Inr (n, g')"
                  using eq lt Inr bT g1 call res g2 g3 by simp
                have "setValue g2 row col None = Inr g3"
                  using g2 g3 by simp
                from "2.IH"(2) [OF lt Inr bT g1 call res [symmetric] this False run]
                show ?thesis
                  by (rule loop_step_restores [OF g1 g3])
              qed
            qed
          qed
        qed
      qed
    qed
  qed
qed

termination countSolutions
proof (relation "measures
    [\<lambda>x. case x of Inl (g, limit) \<Rightarrow> 2 * emptyCount g
                  | Inr (g, row, col, limit, num, solutions) \<Rightarrow> 2 * othersEmpty g row col + 1,
     \<lambda>x. case x of Inl (g, limit) \<Rightarrow> 0
                  | Inr (g, row, col, limit, num, solutions) \<Rightarrow> 9 - num]", goal_cases)
  case 1
  show ?case by simp
next
  case (2 g limit found p row col)
  then show ?case
    using othersEmpty_less [of g row col] by simp
next
  case (3 g row col limit num solutions b g1)
  then show ?case
    using emptyCount_setValue_Some [of g row col num g1] by simp
next
  case (4 g row col limit num solutions b g1 res m g2 g3)
  have "g2 = g1"
    using countSolutions_restores_dom(1) [OF 4(9), of m g2] 4(5,6) by simp
  then have "othersEmpty g3 row col = othersEmpty g row col"
    using 4(4,7) loop_step_measure by metis
  then show ?case
    using 4(1) by simp
next
  case (5 g row col limit num solutions b)
  then show ?case by simp
qed

lemma generateSolution_restores_dom:
  "generateSolution_tryNumbers_dom (Inl (g, rnd)) \<Longrightarrow>
     generateSolution g rnd = Inr (False, g', rnd') \<Longrightarrow> g' = g"
  "generateSolution_tryNumbers_dom (Inr (g, row, col, nums, rnd)) \<Longrightarrow>
     tryNumbers g row col nums rnd = Inr (False, g', rnd') \<Longrightarrow>
     g' = g \<or> setValue g row col None = Inr g'"
proof (induction g rnd and g row col nums rnd arbitrary: g' rnd' and g' rnd'
       rule: generateSolution_tryNumbers.pinduct)
  case (1 g rnd)
  note eq = "1.prems" [unfolded generateSolution.psimps [OF "1.hyps"]]
  show ?case
  proof (cases "findEmptyCell g")
    case (Inl e)
    then show ?thesis using eq by simp
  next
    case (Inr found)
    show ?thesis
    proof (cases found)
      case None
      then show ?thesis using eq Inr by simp
    next
      case (Some p)
      obtain row col where p: "p = (row, col)"
        by (cases p)
      obtain numbers rnd1 where sh: "shuffle [0..<9] rnd = (numbers, rnd1)"
        by (cases "shuffle [0..<9] rnd")
      have fe: "findEmptyCell g = Inr (Some (row, col))"
        using Inr Some p by simp
      have "tryNumbers g row col numbers rnd1 = Inr (False, g', rnd')"
        using eq fe sh by simp
      from "1.IH" [OF Inr Some p [symmetric] sh [symmetric] this]
      show ?thesis
        using setValue_found [OF fe] by auto
    qed
  qed
next
  case (2 g row col rnd)
  then show ?case
    by (simp add: tryNumbers.psimps)
next
  case (3 g row col num rest rnd)
  note eq = "3.prems" [unfolded tryNumbers.psimps(2) [OF "3.hyps"]]
  show ?case
  proof (cases "isValid g row col num")
    case (Inl e)
    then show ?thesis using eq by simp
  next
    case (Inr b)
    show ?thesis
    proof (cases b)
      case False
      then have bF: "b = False"
        by simp
      then have "tryNumbers g row col rest rnd = Inr (False, g', rnd')"
        using eq Inr by simp
      from "3.IH"(3) [OF Inr bF this] show ?thesis .
    next
      case True
      then have bT: "b = True"
        by simp
      show ?thesis
      proof (cases "setValue g row col (Some num)")
        case (Inl e)
        then show ?thesis using eq Inr True by simp
      next
        case g1: (Inr g1)
        show ?thesis
        proof (cases "generateSolution g1 rnd")
          case (Inl e)
          then show ?thesis using eq Inr True g1 by simp
        next
          case call: (Inr res)
          obtain ok g2 rnd2 where res: "res = (ok, g2, rnd2)"
            by (cases res)
          have notok: "\<not> ok"
            using eq Inr bT g1 call res by (auto split: if_splits)
          have g2: "g2 = g1"
            using "3.IH"(1) [OF Inr bT g1] call res notok by simp
          show ?thesis
          proof (cases "setValue g1 row col None")
            case (Inl e)
            then show ?thesis using eq Inr True g1 call res g2 notok by simp
          next
            case g3: (Inr g3)
            have run: "tryNumbers g3 row col rest rnd2 = Inr (False, g', rnd')"
              using eq Inr bT g1 call res g2 g3 notok by simp
            have "setValue g2 row col None = Inr g3"
              using g2 g3 by simp
            from "3.IH"(2) [OF Inr bT g1 call res [symmetric] refl notok this run]
            show ?thesis
              by (rule loop_step_restores [OF g1 g3])
          qed
        qed
      qed
    qed
  qed
qed

termination generateSolution
proof (relation "measures
    [\<lambda>x. case x of Inl (g, rnd) \<Rightarrow> 2 * emptyCount g
                  | Inr (g, row, col, nums, rnd) \<Rightarrow> 2 * othersEmpty g row col + 1,
     \<lambda>x. case x of Inl (g, rnd) \<Rightarrow> 0
                  | Inr (g, row, col, nums, rnd) \<Rightarrow> length nums]", goal_cases)
  case 1
  show ?case by simp
next
  case (2 g rnd found p row col numbers rnd1)
  then show ?case
    using othersEmpty_less [of g row col] by simp
next
  case (3 g row col num rest rnd b g1)
  then show ?case
    using emptyCount_setValue_Some [of g row col num g1] by simp
next
  case (4 g row col num rest rnd b g1 res ok y g2 rnd2 g3)
  have "g2 = g1"
    using generateSolution_restores_dom(1) [OF 4(9), of g2 rnd2] 4(4,5,6,7) by simp
  then have "othersEmpty g3 row col = othersEmpty g row col"
    using 4(3,8) loop_step_measure by metis
  then show ?case
    by simp
next
  case (5 g row col num rest rnd b)
  then show ?case by simp
qed

lemma solveGridWith_restores_dom:
  "solveGridWith_solveLoop_dom (Inl (chk, g)) \<Longrightarrow>
     solveGridWith chk g = Inr (False, g') \<Longrightarrow> g' = g"
  "solveGridWith_solveLoop_dom (Inr (chk, g, row, col, num)) \<Longrightarrow>
     solveLoop chk g row col num = Inr (False, g') \<Longrightarrow>
     g' = g \<or> setValue g row col None = Inr g'"
proof (induction chk g and chk g row col num arbitrary: g' and g'
       rule: solveGridWith_solveLoop.pinduct)
  case (1 chk g)
  note eq = "1.prems" [unfolded solveGridWith.psimps [OF "1.hyps"]]
  show ?case
  proof (cases "findEmptyCell g")
    case (Inl e)
    then show ?thesis using eq by simp
  next
    case (Inr found)
    show ?thesis
    proof (cases found)
      case None
      then show ?thesis using eq Inr by simp
    next
      case (Some p)
      obtain row col where p: "p = (row, col)"
        by (cases p)
      have fe: "findEmptyCell g = Inr (Some (row, col))"
        using Inr Some p by simp
      have "solveLoop chk g row col 0 = Inr (False, g')"
        using eq fe by simp
      from "1.IH" [OF Inr Some p [symmetric] this]
      show ?thesis
        using setValue_found [OF fe] by auto
    qed
  qed
next
  case (2 chk g row col num)
  note eq = "2.prems" [unfolded solveLoop.psimps [OF "2.hyps"]]
  show ?case
  proof (cases "num < 9")
    case False
    then show ?thesis using eq by simp
  next
    case lt: True
    show ?thesis
    proof (cases "chk g row col num")
      case (Inl e)
      then show ?thesis using eq lt by simp
    next
      case (Inr b)
      show ?thesis
      proof (cases b)
        case False
        then have bF: "b = False"
          by simp
        then have "solveLoop chk g row col (num + 1) = Inr (False, g')"
          using eq lt Inr by simp
        from "2.IH"(3) [OF lt Inr bF this] show ?thesis .
      next
        case True
        then have bT: "b = True"
          by simp
        show ?thesis
        proof (cases "setValue g row col (Some num)")
          case (Inl e)
          then show ?thesis using eq lt Inr True by simp
        next
          case g1: (Inr g1)
          show ?thesis
          proof (cases "solveGridWith chk g1")
            case (Inl e)
            then show ?thesis using eq lt Inr True g1 by simp
          next
            case call: (Inr res)
            obtain ok g2 where res: "res = (ok, g2)"
              by (cases res)
            have notok: "\<not> ok"
              using eq lt Inr bT g1 call res by (auto split: if_splits)
            have g2: "g2 = g1"
              using "2.IH"(1) [OF lt Inr bT g1] call res notok by simp
            show ?thesis
            proof (cases "setValue g1 row col None")
              case (Inl e)
              then show ?thesis using eq lt Inr True g1 call res g2 notok by simp
            next
              case g3: (Inr g3)
              have run: "solveLoop chk g3 row col (num + 1) = Inr (False, g')"
                using eq lt Inr bT g1 call res g2 g3 notok by simp
              have "setValue g2 row col None = Inr g3"
                using g2 g3 by simp
              from "2.IH"(2) [OF lt Inr bT g1 call res [symmetric] notok this run]
              show ?thesis
                by (rule loop_step_restores [OF g1 g3])
            qed
          qed
        qed
      qed
    qed
  qed
qed

termination solveGridWith
proof (relation "measures
    [\<lambda>x. case x of Inl (chk, g) \<Rightarrow> 2 * emptyCount g
                  | Inr (chk, g, row, col, num) \<Rightarrow> 2 * othersEmpty g row col + 1,
     \<lambda>x. case x of Inl (chk, g) \<Rightarrow> 0
                  | Inr (chk, g, row, col, num) \<Rightarrow> 9 - num]", goal_cases)
  case 1
  show ?case by simp
next
  case (2 chk g found p row col)
  then show ?case
    using othersEmpty_less [of g row col] by simp
next
  case (3 chk g row col num b g1)
  then show ?case
    using emptyCount_setValue_Some [of g row col num g1] by simp
next
  case (4 chk g row col num b g1 res ok g2 g3)
  have "g2 = g1"
    using solveGridWith_restores_dom(1) [OF 4(9), of g2] 4(5,6,7) by simp
  then have "othersEmpty g3 row col = othersEmpty g row col"
    using 4(4,8) loop_step_measure by metis
  then show ?case
    using 4(1) by simp
next
  case (5 chk g row col num b)
  then show ?case by simp
qed

lemma findSolutions_restores_dom:
  "findSolutions_findLoop_dom (Inl (g, sols)) \<Longrightarrow>
     findSolutions g sols = Inr (g', sols') \<Longrightarrow> g' = g"
  "findSolutions_findLoop_dom (Inr (g, row, col, num, sols)) \<Longrightarrow>
     findLoop g row col num sols = Inr (g', sols') \<Longrightarrow>
     g' = g \<or> setValue g row col None = Inr g'"
proof (induction g sols and g row col num sols arbitrary: g' sols' and g' sols'
       rule: findSolutions_findLoop.pinduct)
  case (1 g sols)
  note eq = "1.prems" [unfolded findSolutions.psimps [OF "1.hyps"]]
  show ?case
  proof (cases "findEmptyCell g")
    case (Inl e)
    then show ?thesis using eq by simp
  next
    case (Inr found)
    show ?thesis
    proof (cases found)
      case None
      then show ?thesis using eq Inr by simp
    next
      case (Some p)
      obtain row col where p: "p = (row, col)"
        by (cases p)
      have fe: "findEmptyCell g = Inr (Some (row, col))"
        using Inr Some p by simp
      have "findLoop g row col 0 sols = Inr (g', sols')"
        using eq fe by simp
      from "1.IH" [OF Inr Some p [symmetric] this]
      show ?thesis
        using setValue_found [OF fe] by auto
    qed
  qed
next
  case (2 g row col num sols)
  note eq = "2.prems" [unfolded findLoop.psimps [OF "2.hyps"]]
  show ?case
  proof (cases "num < 9")
    case False
    then show ?thesis using eq by simp
  next
    case lt: True
    show ?thesis
    proof (cases "checkPlacement2 g row col num")
      case (Inl e)
      then show ?thesis using eq lt by simp
    next
      case (Inr b)
      show ?thesis
      proof (cases b)
        case False
        then have bF: "b = False"
          by simp
        then have "findLoop g row col (num + 1) sols = Inr (g', sols')"
          using eq lt Inr by simp
        from "2.IH"(3) [OF lt Inr bF this] show ?thesis .
      next
        case True
        then have bT: "b = True"
          by simp
        show ?thesis
        proof (cases "setValue g row col (Some num)")
          case (Inl e)
          then show ?thesis using eq lt Inr True by simp
        next
          case g1: (Inr g1)
          show ?thesis
          proof (cases "findSolutions g1 sols")
            case (Inl e)
            then show ?thesis using eq lt Inr True g1 by simp
          next
            case call: (Inr res)
            obtain g2 sols1 where res: "res = (g2, sols1)"
              by (cases res)
            have g2: "g2 = g1"
              using "2.IH"(1) [OF lt Inr bT g1] call res by simp
            show ?thesis
            proof (cases "setValue g1 row col None")
              case (Inl e)
              then show ?thesis using eq lt Inr True g1 call res g2 by simp
            next
              case g3: (Inr g3)
              show ?thesis
              proof (cases "1 < length sols1")
                case True
                then have "g' = g3"
                  using eq lt Inr bT g1 call res g2 g3 by simp
                then show ?thesis
                  using loop_step_restores [OF g1 g3] by simp
              next
                case False
                then have run: "findLoop g3 row col (num + 1) sols1 = Inr (g', sols')"
                  using eq lt Inr bT g1 call res g2 g3 by simp
                have "setValue g2 row col None = Inr g3"
                  using g2 g3 by simp
                from "2.IH"(2) [OF lt Inr bT g1 call res [symmetric] this False run]
                show ?thesis
                  by (rule loop_step_restores [OF g1 g3])
              qed
            qed
          qed
        qed
      qed
    qed
  qed
qed

termination findSolutions
proof (relation "measures
    [\<lambda>x. case x of Inl (g, sols) \<Rightarrow> 2 * emptyCount g
                  | Inr (g, row, col, num, sols) \<Rightarrow> 2 * othersEmpty g row col + 1,
     \<lambda>x. case x of Inl (g, sols) \<Rightarrow> 0
                  | Inr (g, row, col, num, sols) \<Rightarrow> 9 - num]", goal_cases)
  case 1
  show ?case by simp
next
  case (2 g sols found p row col)
  then show ?case
    using othersEmpty_less [of g row col] by simp
next
  case (3 g row col num sols b g1)
  then show ?case
    using emptyCount_setValue_Some [of g row col num g1] by simp
next
  case (4 g row col num sols b g1 res g2 sols1 g3)
  have "g2 = g1"
    using findSolutions_restores_dom(1) [OF 4(9), of g2 sols1] 4(5,6) by simp
  then have "othersEmpty g3 row col = othersEmpty g row col"
    using 4(4,7) loop_step_measure by metis
  then show ?case
    using 4(1) by simp
next
  case (5 g row col num sols b)
  then show ?case by simp
qed

section \<open>Specification vocabulary\<close>

text \<open>A grid as the data model describes it: nine rows of nine cells.\<close>

definition wf_grid :: "grid \<Rightarrow> bool" where
  "wf_grid g = (length g = 9 \<and> (\<forall>row \<in> set g. length row = 9))"

definition valueAt :: "grid \<Rightarrow> nat \<Rightarrow> nat \<Rightarrow> nat option" where
  "valueAt g r c = cell_value (g ! r ! c)"

definition fixedAt :: "grid \<Rightarrow> nat \<Rightarrow> nat \<Rightarrow> bool" where
  "fixedAt g r c = isFixed (g ! r ! c)"

text \<open>Two cells share a unit when they share the row, the column or the 3x3 box.\<close>

definition sameUnit :: "nat \<Rightarrow> nat \<Rightarrow> nat \<Rightarrow> nat \<Rightarrow> bool" where
  "sameUnit r c row col = (r = row \<or> c = col \<or> (r div 3 = row div 3 \<and> c div 3 = col div 3))"

text \<open>Some cell other than \<open>(row, col)\<close> that shares a unit with it holds \<open>v\<close>.\<close>

definition conflicts :: "grid \<Rightarrow> nat \<Rightarrow> nat \<Rightarrow> nat \<Rightarrow> bool" where
  "conflicts g row col v =
     (\<exists>r<9. \<exists>c<9. (r, c) \<noteq> (row, col) \<and> sameUnit r c row col \<and> valueAt g r c = Some v)"

section \<open>Reading and writing well-formed grids\<close>

lemma cellAt_wf:
  "wf_grid g \<Longrightarrow> r < 9 \<Longrightarrow> c < 9 \<Longrightarrow> cellAt g r c = Inr (g ! r ! c)"
  by (simp add: wf_grid_def cellAt_def)

lemma noCellHolds_wf:
  "wf_grid g \<Longrightarrow> \<forall>(r, c) \<in> set ps. r < 9 \<and> c < 9 \<Longrightarrow>
   noCellHolds g v ps = Inr (\<forall>(r, c) \<in> set ps. valueAt g r c \<noteq> Some v)"
  by (induction ps) (auto simp: cellAt_wf valueAt_def)

lemma mem_boxCells:
  "((r, c) \<in> set (boxCells sr sc)) = (sr \<le> r \<and> r < sr + 3 \<and> sc \<le> c \<and> c < sc + 3)"
proof -
  have three: "[0..<3] = [0, 1, 2::nat]"
    by (simp add: upt_rec)
  have "\<And>a b::nat. (b = a \<or> b = a + 1 \<or> b = a + 2) = (a \<le> b \<and> b < a + 3)"
    by arith
  then show ?thesis
    by (simp add: boxCells_def three) blast
qed

lemma box_start: "(row::nat) - row mod 3 = row div 3 * 3"
  by (simp add: minus_mod_eq_div_mult)

lemma in_box_iff:
  "((q::nat) * 3 \<le> x \<and> x < q * 3 + 3) = (x div 3 = q)"
proof
  assume "q * 3 \<le> x \<and> x < q * 3 + 3"
  then show "x div 3 = q"
    by (intro div_nat_eqI) simp_all
next
  assume "x div 3 = q"
  then have "x = q * 3 + x mod 3"
    by (metis div_mult_mod_eq)
  moreover have "x mod 3 < 3"
    by simp
  ultimately show "q * 3 \<le> x \<and> x < q * 3 + 3"
    by linarith
qed

lemma mem_boxCells_div:
  "((r, c) \<in> set (boxCells (row div 3 * 3) (col div 3 * 3))) =
   (r div 3 = row div 3 \<and> c div 3 = col div 3)"
  using in_box_iff [of "row div 3" r] in_box_iff [of "col div 3" c]
  by (simp only: mem_boxCells) blast

lemma div3_lt9:
  assumes "(x::nat) div 3 = r div 3" "r < 9"
  shows "x < 9"
proof -
  have "r div 3 < 3"
    using assms(2) by simp
  then have "x div 3 < 3"
    using assms(1) by simp
  then show ?thesis
    by simp
qed

lemma mem_placement_cells:
  assumes "row < 9" "col < 9"
  shows "((r, c) \<in> set (map (\<lambda>x. (row, x)) (filter (\<lambda>x. x \<noteq> col) [0..<9]) @
        map (\<lambda>x. (x, col)) (filter (\<lambda>x. x \<noteq> row) [0..<9]) @
        filter (\<lambda>(r, c). r \<noteq> row \<or> c \<noteq> col) (boxCells (row - row mod 3) (col - col mod 3))))
     = (r < 9 \<and> c < 9 \<and> (r, c) \<noteq> (row, col) \<and> sameUnit r c row col)"
proof -
  have "r div 3 = row div 3 \<Longrightarrow> r < 9" and "c div 3 = col div 3 \<Longrightarrow> c < 9"
    using assms by (auto intro: div3_lt9)
  then show ?thesis
    using assms
    by (simp add: mem_boxCells_div box_start sameUnit_def image_iff) blast
qed

lemma mem_placement_cells2:
  assumes "row < 9" "col < 9"
  shows "((r, c) \<in> set (map (\<lambda>i. (row, i)) (filter (\<lambda>i. i \<noteq> col) [0..<9]) @
        map (\<lambda>i. (i, col)) (filter (\<lambda>i. i \<noteq> row) [0..<9]) @
        filter (\<lambda>(r, c). r \<noteq> row \<and> c \<noteq> col) (boxCells (row div 3 * 3) (col div 3 * 3))))
     = (r < 9 \<and> c < 9 \<and> (r, c) \<noteq> (row, col) \<and> sameUnit r c row col)"
proof -
  have "r div 3 = row div 3 \<Longrightarrow> r < 9" and "c div 3 = col div 3 \<Longrightarrow> c < 9"
    using assms by (auto intro: div3_lt9)
  then show ?thesis
    using assms
    by (simp add: mem_boxCells_div sameUnit_def image_iff) blast
qed

lemma checkPlacement_wf:
  assumes "wf_grid g" "row < 9" "col < 9"
  shows "checkPlacement g row col v = Inr (\<not> conflicts g row col v)"
proof -
  let ?ps = "map (\<lambda>x. (row, x)) (filter (\<lambda>x. x \<noteq> col) [0..<9]) @
        map (\<lambda>x. (x, col)) (filter (\<lambda>x. x \<noteq> row) [0..<9]) @
        filter (\<lambda>(r, c). r \<noteq> row \<or> c \<noteq> col) (boxCells (row - row mod 3) (col - col mod 3))"
  note mem = mem_placement_cells [OF assms(2,3)]
  have "\<forall>(r, c) \<in> set ?ps. r < 9 \<and> c < 9"
    using mem by blast
  then have "noCellHolds g v ?ps = Inr (\<forall>(r, c) \<in> set ?ps. valueAt g r c \<noteq> Some v)"
    by (rule noCellHolds_wf [OF assms(1)])
  also have "(\<forall>(r, c) \<in> set ?ps. valueAt g r c \<noteq> Some v) = (\<not> conflicts g row col v)"
    unfolding conflicts_def using mem by blast
  finally show ?thesis
    by (simp add: checkPlacement_def)
qed

lemma checkPlacement2_wf:
  assumes "wf_grid g" "row < 9" "col < 9"
  shows "checkPlacement2 g row col v = Inr (\<not> conflicts g row col v)"
proof -
  let ?ps = "map (\<lambda>i. (row, i)) (filter (\<lambda>i. i \<noteq> col) [0..<9]) @
        map (\<lambda>i. (i, col)) (filter (\<lambda>i. i \<noteq> row) [0..<9]) @
        filter (\<lambda>(r, c). r \<noteq> row \<and> c \<noteq> col) (boxCells (row div 3 * 3) (col div 3 * 3))"
  note mem = mem_placement_cells2 [OF assms(2,3)]
  have "\<forall>(r, c) \<in> set ?ps. r < 9 \<and> c < 9"
    using mem by blast
  then have "noCellHolds g v ?ps = Inr (\<forall>(r, c) \<in> set ?ps. valueAt g r c \<noteq> Some v)"
    by (rule noCellHolds_wf [OF assms(1)])
  also have "(\<forall>(r, c) \<in> set ?ps. valueAt g r c \<noteq> Some v) = (\<not> conflicts g row col v)"
    unfolding conflicts_def using mem by blast
  finally show ?thesis
    by (simp add: checkPlacement2_def)
qed

declare countSolutions.simps [simp del] countLoop.simps [simp del]
declare generateSolution.simps [simp del] tryNumbers.simps [simp del]
declare solveGridWith.simps [simp del] solveLoop.simps [simp del]
declare findSolutions.simps [simp del] findLoop.simps [simp del]

lemma wf_createEmptyGrid: "wf_grid createEmptyGrid"
  by (simp add: wf_grid_def createEmptyGrid_def)

lemma wf_list_update:
  "wf_grid g \<Longrightarrow> r < length g \<Longrightarrow> wf_grid (g[r := (g ! r)[c := cl]])"
  by (auto simp: wf_grid_def dest!: set_update_subset_insert [THEN subsetD])

lemma wf_setValue: "wf_grid g \<Longrightarrow> setValue g r c v = Inr g1 \<Longrightarrow> wf_grid g1"
  by (auto simp: setValue_def wf_list_update split: if_splits)

lemma wf_setFixed: "wf_grid g \<Longrightarrow> setFixed g r c b = Inr g1 \<Longrightarrow> wf_grid g1"
  by (auto simp: setFixed_def wf_list_update split: if_splits)

lemma setValue_wf: "wf_grid g \<Longrightarrow> r < 9 \<Longrightarrow> c < 9 \<Longrightarrow> \<exists>g1. setValue g r c v = Inr g1"
  by (simp add: setValue_def wf_grid_def)

lemma setFixed_wf: "wf_grid g \<Longrightarrow> r < 9 \<Longrightarrow> c < 9 \<Longrightarrow> \<exists>g1. setFixed g r c b = Inr g1"
  by (simp add: setFixed_def wf_grid_def)

lemma nth_nth_update:
  "r < length g \<Longrightarrow> c < length (g ! r) \<Longrightarrow>
   g[r := (g ! r)[c := cl]] ! r' ! c' = (if r' = r \<and> c' = c then cl else g ! r' ! c')"
  by (cases "r' = r"; cases "c' = c") simp_all

lemma valueAt_setValue:
  "setValue g r c v = Inr g1 \<Longrightarrow>
   valueAt g1 r' c' = (if r' = r \<and> c' = c then v else valueAt g r' c')"
  by (auto simp: setValue_def valueAt_def nth_nth_update split: if_splits)

lemma fixedAt_setValue:
  "setValue g r c v = Inr g1 \<Longrightarrow> fixedAt g1 r' c' = fixedAt g r' c'"
  by (auto simp: setValue_def fixedAt_def nth_nth_update split: if_splits)

lemma valueAt_setFixed:
  "setFixed g r c b = Inr g1 \<Longrightarrow> valueAt g1 r' c' = valueAt g r' c'"
  by (auto simp: setFixed_def valueAt_def nth_nth_update split: if_splits)

lemma fixedAt_setFixed:
  "setFixed g r c b = Inr g1 \<Longrightarrow>
   fixedAt g1 r' c' = (if r' = r \<and> c' = c then b else fixedAt g r' c')"
  by (auto simp: setFixed_def fixedAt_def nth_nth_update split: if_splits)

lemma setValue_clear_again:
  assumes "setValue g r c a = Inr g1" "valueAt g r c = None"
  shows "setValue g1 r c None = Inr g"
  using setValue_twice [OF assms(1), of None] setValue_Inr [OF assms(1)] assms(2)
  by (simp add: setValue_same valueAt_def)

text \<open>Two 9x9 grids with the same values and flags are the same grid.\<close>

lemma grid_eqI:
  assumes "wf_grid g" "wf_grid h"
    and "\<And>r c. r < 9 \<Longrightarrow> c < 9 \<Longrightarrow> valueAt g r c = valueAt h r c \<and> fixedAt g r c = fixedAt h r c"
  shows "g = h"
proof (rule nth_equalityI)
  show "length g = length h"
    using assms(1,2) by (simp add: wf_grid_def)
next
  fix r assume r: "r < length g"
  then have r9: "r < 9"
    using assms(1) by (simp add: wf_grid_def)
  have lg: "length (g ! r) = 9" and lh: "length (h ! r) = 9"
    using assms(1,2) r9 by (simp_all add: wf_grid_def)
  show "g ! r = h ! r"
  proof (rule nth_equalityI)
    show "length (g ! r) = length (h ! r)"
      using lg lh by simp
  next
    fix c assume "c < length (g ! r)"
    then have "c < 9"
      using lg by simp
    from assms(3) [OF r9 this] show "g ! r ! c = h ! r ! c"
      by (simp add: valueAt_def fixedAt_def)
  qed
qed

text \<open>The cells of \<open>allCells\<close> are the 81 cells of the grid.\<close>

lemma mem_allCells: "((r, c) \<in> set allCells) = (r < 9 \<and> c < 9)"
  by (auto simp: allCells_def image_iff)

definition filled :: "grid \<Rightarrow> bool" where
  "filled g = (\<forall>(r, c) \<in> set allCells. valueAt g r c \<noteq> None)"

lemma filled_iff: "filled g = (\<forall>r<9. \<forall>c<9. valueAt g r c \<noteq> None)"
proof
  assume "filled g"
  then show "\<forall>r<9. \<forall>c<9. valueAt g r c \<noteq> None"
    unfolding filled_def using mem_allCells by blast
next
  assume "\<forall>r<9. \<forall>c<9. valueAt g r c \<noteq> None"
  then show "filled g"
    unfolding filled_def using mem_allCells by blast
qed

lemma firstEmpty_wf:
  assumes "wf_grid g" "\<forall>(r, c) \<in> set ps. r < 9 \<and> c < 9"
  shows "(firstEmpty g ps = Inr None \<and> (\<forall>(r, c) \<in> set ps. valueAt g r c \<noteq> None)) \<or>
         (\<exists>r c. firstEmpty g ps = Inr (Some (r, c)) \<and> (r, c) \<in> set ps \<and> valueAt g r c = None)"
  using assms(2)
proof (induction ps)
  case Nil
  then show ?case by simp
next
  case (Cons p ps)
  obtain r c where p: "p = (r, c)"
    by (cases p)
  have "cellAt g r c = Inr (g ! r ! c)"
    using Cons.prems p assms(1) by (simp add: cellAt_wf)
  then show ?case
    using Cons p by (auto simp: valueAt_def)
qed

lemma findEmptyCell_wf:
  assumes "wf_grid g"
  shows "(findEmptyCell g = Inr None \<and> filled g) \<or>
         (\<exists>r c. findEmptyCell g = Inr (Some (r, c)) \<and> r < 9 \<and> c < 9 \<and> valueAt g r c = None)"
proof -
  have "\<forall>(r, c) \<in> set allCells. r < 9 \<and> c < 9"
    by (auto simp: mem_allCells)
  from firstEmpty_wf [OF assms this] show ?thesis
    unfolding findEmptyCell_def filled_def using mem_allCells by blast
qed

lemma findEmptyCell_filled:
  "wf_grid g \<Longrightarrow> filled g \<Longrightarrow> findEmptyCell g = Inr None"
  using findEmptyCell_wf [of g] unfolding filled_iff by blast

lemma findEmptyCell_Some_wf:
  assumes "wf_grid g" "findEmptyCell g = Inr (Some (r, c))"
  shows "r < 9 \<and> c < 9 \<and> valueAt g r c = None"
  using findEmptyCell_Some [OF assms(2)] assms(1)
  by (auto simp: wf_grid_def valueAt_def)

lemma mem_isValid_cells:
  assumes "row < 9" "col < 9"
  shows "((r, c) \<in> set (map (\<lambda>x. (row, x)) [0..<9] @ map (\<lambda>x. (x, col)) [0..<9] @
        boxCells (row - row mod 3) (col - col mod 3)))
     = (r < 9 \<and> c < 9 \<and> sameUnit r c row col)"
proof -
  have "r div 3 = row div 3 \<Longrightarrow> r < 9" and "c div 3 = col div 3 \<Longrightarrow> c < 9"
    using assms by (auto intro: div3_lt9)
  then show ?thesis
    using assms
    by (simp add: mem_boxCells_div box_start sameUnit_def image_iff) blast
qed

text \<open>On an empty cell \<open>isValid\<close> and \<open>checkPlacement\<close> agree: the cell itself, which
  \<open>isValid\<close> also reads, holds nothing.\<close>

lemma isValid_wf:
  assumes "wf_grid g" "row < 9" "col < 9" "valueAt g row col = None"
  shows "isValid g row col num = Inr (\<not> conflicts g row col num)"
proof -
  let ?ps = "map (\<lambda>x. (row, x)) [0..<9] @ map (\<lambda>x. (x, col)) [0..<9] @
        boxCells (row - row mod 3) (col - col mod 3)"
  note mem = mem_isValid_cells [OF assms(2,3)]
  have "\<forall>(r, c) \<in> set ?ps. r < 9 \<and> c < 9"
    using mem by blast
  then have "noCellHolds g num ?ps = Inr (\<forall>(r, c) \<in> set ?ps. valueAt g r c \<noteq> Some num)"
    by (rule noCellHolds_wf [OF assms(1)])
  also have "(\<forall>(r, c) \<in> set ?ps. valueAt g r c \<noteq> Some num) = (\<not> conflicts g row col num)"
  proof -
    have "(\<forall>(r, c) \<in> set ?ps. valueAt g r c \<noteq> Some num) =
          (\<forall>r<9. \<forall>c<9. sameUnit r c row col \<longrightarrow> valueAt g r c \<noteq> Some num)"
      using mem by blast
    also have "\<dots> = (\<forall>r<9. \<forall>c<9. (r, c) \<noteq> (row, col) \<and> sameUnit r c row col
                       \<longrightarrow> valueAt g r c \<noteq> Some num)"
    proof (intro iffI allI impI)
      fix r c
      assume "\<forall>r<9. \<forall>c<9. sameUnit r c row col \<longrightarrow> valueAt g r c \<noteq> Some num"
        and "r < 9" "c < 9" "(r, c) \<noteq> (row, col) \<and> sameUnit r c row col"
      then show "valueAt g r c \<noteq> Some num"
        by blast
    next
      fix r c
      assume h: "\<forall>r<9. \<forall>c<9. (r, c) \<noteq> (row, col) \<and> sameUnit r c row col
                       \<longrightarrow> valueAt g r c \<noteq> Some num"
        and rc: "r < 9" "c < 9" "sameUnit r c row col"
      show "valueAt g r c \<noteq> Some num"
      proof (cases "(r, c) = (row, col)")
        case True
        then show ?thesis
          using assms(4) by simp
      next
        case False
        then show ?thesis
          using h rc by blast
      qed
    qed
    also have "\<dots> = (\<not> conflicts g row col num)"
      unfolding conflicts_def by blast
    finally show ?thesis .
  qed
  finally show ?thesis
    by (simp add: isValid_def)
qed

section \<open>The searches return, and give the grid back\<close>

lemma countSolutions_total:
  "wf_grid g \<Longrightarrow> \<exists>n. countSolutions g limit = Inr (n, g)"
  "wf_grid g \<Longrightarrow> row < 9 \<Longrightarrow> col < 9 \<Longrightarrow> valueAt g row col = None \<Longrightarrow>
     \<exists>n. countLoop g row col limit num solutions = Inr (n, g)"
proof (induction g limit and g row col limit num solutions
       rule: countSolutions_countLoop.induct)
  case (1 g limit)
  from findEmptyCell_wf [OF "1.prems"] show ?case
  proof (elim disjE conjE exE)
    assume "findEmptyCell g = Inr None"
    then show ?thesis
      by (simp add: countSolutions.simps)
  next
    fix row col
    assume fe: "findEmptyCell g = Inr (Some (row, col))"
      and rc: "row < 9" "col < 9" "valueAt g row col = None"
    from "1.IH" [OF fe refl refl "1.prems" rc] show ?thesis
      using fe by (simp add: countSolutions.simps)
  qed
next
  case (2 g row col limit num solutions)
  note wf = "2.prems"(1) and rc = "2.prems"(2,3) and emp = "2.prems"(4)
  show ?case
  proof (cases "num < 9")
    case False
    then show ?thesis
      by (simp add: countLoop.simps)
  next
    case lt: True
    note valid = isValid_wf [OF wf rc emp, of num]
    show ?thesis
    proof (cases "conflicts g row col num")
      case True
      from "2.IH"(3) [OF lt valid] True wf rc emp show ?thesis
        using lt valid by (simp add: countLoop.simps [of g row col limit num])
    next
      case False
      obtain g1 where g1: "setValue g row col (Some num) = Inr g1"
        using setValue_wf [OF wf rc] by blast
      have wf1: "wf_grid g1"
        using wf g1 by (rule wf_setValue)
      obtain n where call: "countSolutions g1 (limit - solutions) = Inr (n, g1)"
        using "2.IH"(1) [OF lt valid _ g1 wf1] False by auto
      have g3: "setValue g1 row col None = Inr g"
        using g1 emp by (rule setValue_clear_again)
      show ?thesis
      proof (cases "limit \<le> solutions + n")
        case True
        then show ?thesis
          using lt valid False g1 call g3
          by (simp add: countLoop.simps [of g row col limit num])
      next
        case over: False
        from "2.IH"(2) [OF lt valid _ g1 call refl g3 over wf rc emp] False
        show ?thesis
          using lt valid g1 call g3 over
          by (simp add: countLoop.simps [of g row col limit num])
      qed
    qed
  qed
qed

section \<open>Solved grids\<close>

text \<open>
  The units of the grid as sets of cells. A grid is solved when it has no empty cell and
  every row, every column and every box contains each of the nine colours exactly
  once.
\<close>

definition rowUnit :: "nat \<Rightarrow> (nat \<times> nat) set" where
  "rowUnit i = {(r, c). r = i \<and> c < 9}"

definition colUnit :: "nat \<Rightarrow> (nat \<times> nat) set" where
  "colUnit i = {(r, c). c = i \<and> r < 9}"

definition boxUnit :: "nat \<Rightarrow> (nat \<times> nat) set" where
  "boxUnit b = {(r, c). r div 3 = b div 3 \<and> c div 3 = b mod 3}"

definition containsEachOnce :: "grid \<Rightarrow> (nat \<times> nat) set \<Rightarrow> bool" where
  "containsEachOnce g U = (\<forall>v<9. \<exists>!p. p \<in> U \<and> valueAt g (fst p) (snd p) = Some v)"

definition isSolvedGrid :: "grid \<Rightarrow> bool" where
  "isSolvedGrid g =
     (filled g \<and>
      (\<forall>i<9. containsEachOnce g (rowUnit i) \<and> containsEachOnce g (colUnit i) \<and>
              containsEachOnce g (boxUnit i)))"

text \<open>The colours of a grid are in range, and no two cells of a unit hold the same one.\<close>

definition consistent :: "grid \<Rightarrow> bool" where
  "consistent g =
     (\<forall>r<9. \<forall>c<9. \<forall>v. valueAt g r c = Some v \<longrightarrow> v < 9 \<and> \<not> conflicts g r c v)"

definition units :: "(nat \<times> nat) set set" where
  "units = rowUnit ` {..<9} \<union> colUnit ` {..<9} \<union> boxUnit ` {..<9}"

lemma rowUnit_image: "rowUnit i = Pair i ` {..<9}"
  by (auto simp: rowUnit_def)

lemma colUnit_image: "colUnit i = (\<lambda>r. (r, i)) ` {..<9}"
  by (auto simp: colUnit_def)

lemma boxUnit_boxCells: "boxUnit b = set (boxCells (b div 3 * 3) (b mod 3 * 3))"
proof -
  have "((r, c) \<in> boxUnit b) = ((r, c) \<in> set (boxCells (b div 3 * 3) (b mod 3 * 3)))" for r c
    using in_box_iff [of "b div 3" r] in_box_iff [of "b mod 3" c]
    by (simp only: mem_boxCells boxUnit_def mem_Collect_eq prod.case) blast
  then show ?thesis
    by auto
qed

lemma distinct_boxCells: "distinct (boxCells sr sc)"
proof -
  have three: "[0..<3] = [0, 1, 2::nat]"
    by (simp add: upt_rec)
  show ?thesis
    by (simp add: boxCells_def three)
qed

lemma length_boxCells: "length (boxCells sr sc) = 9"
proof -
  have three: "[0..<3] = [0, 1, 2::nat]"
    by (simp add: upt_rec)
  show ?thesis
    by (simp add: boxCells_def three)
qed

lemma card_unit: "U \<in> units \<Longrightarrow> finite U \<and> card U = 9"
proof -
  assume "U \<in> units"
  then consider i where "U = rowUnit i" | i where "U = colUnit i" | b where "U = boxUnit b"
    by (auto simp: units_def)
  then show ?thesis
  proof cases
    case 1
    then show ?thesis
      by (simp add: rowUnit_image card_image inj_on_def)
  next
    case 2
    then show ?thesis
      by (simp add: colUnit_image card_image inj_on_def)
  next
    case 3
    then show ?thesis
      using distinct_card [OF distinct_boxCells, of "b div 3 * 3" "b mod 3 * 3"]
      by (simp add: boxUnit_boxCells length_boxCells)
  qed
qed

lemma unit_in_range:
  assumes "U \<in> units" "(r, c) \<in> U"
  shows "r < 9 \<and> c < 9"
proof -
  have box: "\<And>b. b < 9 \<Longrightarrow> r div 3 = b div 3 \<Longrightarrow> c div 3 = b mod 3 \<Longrightarrow> r < 9 \<and> c < 9"
  proof -
    fix b :: nat
    assume "b < 9" "r div 3 = b div 3" "c div 3 = b mod 3"
    then have "r div 3 < 3" "c div 3 < 3"
      by simp_all
    then show "r < 9 \<and> c < 9"
      by (simp add: div_less_iff_less_mult)
  qed
  show ?thesis
    using assms box by (auto simp: units_def rowUnit_def colUnit_def boxUnit_def)
qed

lemma unit_sameUnit:
  assumes "U \<in> units" "(r, c) \<in> U" "(r', c') \<in> U"
  shows "sameUnit r c r' c'"
  using assms by (auto simp: units_def rowUnit_def colUnit_def boxUnit_def sameUnit_def)

lemma sameUnit_common_unit:
  assumes "r < 9" "c < 9" "r' < 9" "c' < 9" "sameUnit r c r' c'"
  shows "\<exists>U \<in> units. (r, c) \<in> U \<and> (r', c') \<in> U"
proof -
  consider "r = r'" | "c = c'" | "r div 3 = r' div 3 \<and> c div 3 = c' div 3"
    using assms(5) by (auto simp: sameUnit_def)
  then show ?thesis
  proof cases
    case 1
    then have "(r, c) \<in> rowUnit r \<and> (r', c') \<in> rowUnit r"
      using assms by (simp add: rowUnit_def)
    then show ?thesis
      using assms(1) by (auto simp: units_def)
  next
    case 2
    then have "(r, c) \<in> colUnit c \<and> (r', c') \<in> colUnit c"
      using assms by (simp add: colUnit_def)
    then show ?thesis
      using assms(2) by (auto simp: units_def)
  next
    case 3
    let ?b = "r div 3 * 3 + c div 3"
    have c3: "c div 3 < 3" and r3: "r div 3 < 3"
      using assms(1,2) by simp_all
    have "?b div 3 = r div 3" "?b mod 3 = c div 3"
      using c3 by simp_all
    then have "(r, c) \<in> boxUnit ?b \<and> (r', c') \<in> boxUnit ?b"
      using 3 by (simp add: boxUnit_def)
    moreover have "?b < 9"
      using c3 r3 by linarith
    ultimately show ?thesis
      unfolding units_def by blast
  qed
qed

lemma isSolvedGrid_units:
  "isSolvedGrid g = (filled g \<and> (\<forall>U \<in> units. containsEachOnce g U))"
  unfolding isSolvedGrid_def units_def by blast

text \<open>Nine cells that hold colours below 9: each colour once means no colour twice.\<close>

lemma each_once_iff_inj_on:
  assumes "finite U" "card U = 9" "f ` U \<subseteq> Some ` {..<(9::nat)}"
  shows "(\<forall>v<9. \<exists>!p. p \<in> U \<and> f p = Some v) = inj_on f U"
proof
  assume once: "\<forall>v<9. \<exists>!p. p \<in> U \<and> f p = Some v"
  show "inj_on f U"
  proof (rule inj_onI)
    fix p q assume pq: "p \<in> U" "q \<in> U" "f p = f q"
    then obtain v where "v < 9" "f p = Some v"
      using assms(3) by auto
    then show "p = q"
      using once pq by metis
  qed
next
  assume inj: "inj_on f U"
  have "card (f ` U) = card (Some ` {..<(9::nat)})"
    using inj assms(2) by (simp add: card_image)
  then have img: "f ` U = Some ` {..<(9::nat)}"
    using assms(3) by (intro card_subset_eq) simp_all
  show "\<forall>v<9. \<exists>!p. p \<in> U \<and> f p = Some v"
  proof (intro allI impI)
    fix v :: nat assume "v < 9"
    then have "Some v \<in> f ` U"
      using img by simp
    then obtain p where "p \<in> U" "f p = Some v"
      by auto
    then show "\<exists>!p. p \<in> U \<and> f p = Some v"
      using inj by (metis inj_onD)
  qed
qed

lemma solved_range:
  assumes "containsEachOnce g U" "finite U" "card U = 9" "p \<in> U"
  shows "\<exists>v<9. valueAt g (fst p) (snd p) = Some v"
proof -
  define f where "f = (\<lambda>p. valueAt g (fst p) (snd p))"
  define pick where "pick = (\<lambda>v. THE p. p \<in> U \<and> f p = Some v)"
  have pick: "\<And>v. v < 9 \<Longrightarrow> pick v \<in> U \<and> f (pick v) = Some v"
  proof -
    fix v :: nat assume "v < 9"
    then have "\<exists>!p. p \<in> U \<and> f p = Some v"
      using assms(1) by (simp add: containsEachOnce_def f_def)
    then show "pick v \<in> U \<and> f (pick v) = Some v"
      unfolding pick_def by (rule theI')
  qed
  have "inj_on pick {..<9}"
  proof (rule inj_onI)
    fix v w :: nat assume "v \<in> {..<9}" "w \<in> {..<9}" "pick v = pick w"
    then show "v = w"
      using pick [of v] pick [of w] by (metis lessThan_iff option.inject)
  qed
  then have "card (pick ` {..<9}) = 9"
    by (simp add: card_image)
  moreover have "pick ` {..<9} \<subseteq> U"
    using pick by auto
  ultimately have "pick ` {..<9} = U"
    using assms(2,3) by (intro card_subset_eq) simp_all
  then obtain v where "v < 9" "p = pick v"
    using assms(4) by auto
  then show ?thesis
    using pick [of v] by (auto simp: f_def)
qed

lemma solved_imp_consistent:
  assumes "isSolvedGrid g"
  shows "consistent g"
  unfolding consistent_def
proof (intro allI impI)
  fix r c v
  assume rc: "r < 9" "c < 9" and val: "valueAt g r c = Some v"
  note once = assms [unfolded isSolvedGrid_units, THEN conjunct2, rule_format]
  have ru: "rowUnit r \<in> units"
    using rc(1) by (simp add: units_def)
  have "(r, c) \<in> rowUnit r"
    using rc(2) by (simp add: rowUnit_def)
  from solved_range [OF once [OF ru] _ _ this] card_unit [OF ru]
  have v9: "v < 9"
    using val by auto
  have "\<not> conflicts g r c v"
  proof
    assume "conflicts g r c v"
    then obtain r' c' where o: "r' < 9" "c' < 9" "(r', c') \<noteq> (r, c)" "sameUnit r' c' r c"
        "valueAt g r' c' = Some v"
      by (auto simp: conflicts_def)
    obtain U where U: "U \<in> units" "(r', c') \<in> U" "(r, c) \<in> U"
      using sameUnit_common_unit [OF o(1,2) rc o(4)] by blast
    have "\<exists>!p. p \<in> U \<and> valueAt g (fst p) (snd p) = Some v"
      using once [OF U(1)] v9 by (simp add: containsEachOnce_def)
    then have "(r', c') = (r, c)"
      using U(2,3) o(5) val by (metis fst_conv snd_conv)
    then show False
      using o(3) by simp
  qed
  then show "v < 9 \<and> \<not> conflicts g r c v"
    using v9 by simp
qed

lemma consistent_imp_solved:
  assumes "filled g" "consistent g"
  shows "isSolvedGrid g"
  unfolding isSolvedGrid_units
proof (intro conjI ballI)
  show "filled g"
    by (rule assms(1))
next
  fix U assume U: "U \<in> units"
  let ?f = "\<lambda>p. valueAt g (fst p) (snd p)"
  have val: "\<And>p. p \<in> U \<Longrightarrow> \<exists>v<9. ?f p = Some v"
  proof -
    fix p assume "p \<in> U"
    then have "fst p < 9 \<and> snd p < 9"
      using unit_in_range [OF U, of "fst p" "snd p"] by simp
    then have rc: "fst p < 9" "snd p < 9"
      by simp_all
    obtain v where v: "?f p = Some v"
      using assms(1) rc unfolding filled_iff by blast
    then have "v < 9"
      using assms(2) rc unfolding consistent_def by blast
    then show "\<exists>v<9. ?f p = Some v"
      using v by blast
  qed
  have "inj_on ?f U"
  proof (rule inj_onI)
    fix p q assume pq: "p \<in> U" "q \<in> U" "?f p = ?f q"
    obtain v where v: "?f p = Some v"
      using val [OF pq(1)] by blast
    have rp: "fst p < 9 \<and> snd p < 9" and rq: "fst q < 9 \<and> snd q < 9"
      using unit_in_range [OF U, of "fst p" "snd p"] unit_in_range [OF U, of "fst q" "snd q"] pq
      by simp_all
    have su: "sameUnit (fst q) (snd q) (fst p) (snd p)"
      using unit_sameUnit [OF U, of "fst q" "snd q" "fst p" "snd p"] pq by simp
    have "\<not> conflicts g (fst p) (snd p) v"
      using assms(2) rp v by (simp add: consistent_def)
    then have "(fst q, snd q) = (fst p, snd p)"
      using rq su pq(3) v unfolding conflicts_def by metis
    then show "p = q"
      by (simp add: prod_eq_iff)
  qed
  moreover have "?f ` U \<subseteq> Some ` {..<9}"
    using val by auto
  ultimately show "containsEachOnce g U"
    using each_once_iff_inj_on [of U ?f] card_unit [OF U]
    by (simp add: containsEachOnce_def)
qed

lemma isSolvedGrid_iff: "isSolvedGrid g = (filled g \<and> consistent g)"
  using solved_imp_consistent consistent_imp_solved
  by (auto simp: isSolvedGrid_def)

section \<open>Completions of a grid\<close>

text \<open>\<open>s\<close> extends \<open>g\<close> when it is \<open>g\<close> with values written into some of its empty cells; a
  completion of \<open>g\<close> is a solved grid that extends it.\<close>

definition extendsTo :: "grid \<Rightarrow> grid \<Rightarrow> bool" where
  "extendsTo g s =
     (wf_grid s \<and>
      (\<forall>r<9. \<forall>c<9. fixedAt s r c = fixedAt g r c \<and>
                     (valueAt g r c = None \<or> valueAt s r c = valueAt g r c)))"

definition completions :: "grid \<Rightarrow> grid set" where
  "completions g = {s. extendsTo g s \<and> isSolvedGrid s}"

lemma extendsTo_refl: "wf_grid g \<Longrightarrow> extendsTo g g"
  by (simp add: extendsTo_def)

lemma extendsTo_trans: "extendsTo g h \<Longrightarrow> extendsTo h s \<Longrightarrow> extendsTo g s"
  unfolding extendsTo_def by metis

lemma extendsTo_setValue:
  assumes "wf_grid g" "setValue g r c v = Inr g1" "valueAt g r c = None"
  shows "extendsTo g g1"
  using assms wf_setValue [OF assms(1,2)]
  by (auto simp: extendsTo_def valueAt_setValue [OF assms(2)] fixedAt_setValue [OF assms(2)])

lemma extendsTo_into:
  assumes "extendsTo g s" "setValue g r c (Some v) = Inr g1" "valueAt s r c = Some v"
  shows "extendsTo g1 s"
  using assms(1,3)
  by (auto simp: extendsTo_def valueAt_setValue [OF assms(2)] fixedAt_setValue [OF assms(2)])

lemma extendsTo_from:
  assumes "extendsTo g1 s" "setValue g r c v = Inr g1" "valueAt g r c = None"
  shows "extendsTo g s"
  unfolding extendsTo_def
proof (intro conjI allI impI)
  show "wf_grid s"
    using assms(1) by (simp add: extendsTo_def)
next
  fix r' c' :: nat assume "r' < 9" "c' < 9"
  then show "fixedAt s r' c' = fixedAt g r' c'"
    using assms(1) by (simp add: extendsTo_def fixedAt_setValue [OF assms(2)])
next
  fix r' c' :: nat assume rc: "r' < 9" "c' < 9"
  show "valueAt g r' c' = None \<or> valueAt s r' c' = valueAt g r' c'"
  proof (cases "r' = r \<and> c' = c")
    case True
    then show ?thesis
      using assms(3) by simp
  next
    case False
    then have "valueAt g1 r' c' = valueAt g r' c'"
      by (auto simp: valueAt_setValue [OF assms(2)])
    then show ?thesis
      using assms(1) rc unfolding extendsTo_def by metis
  qed
qed

lemma sameUnit_sym: "sameUnit r c r' c' = sameUnit r' c' r c"
  by (auto simp: sameUnit_def)

lemma conflicts_extendsTo:
  assumes "extendsTo g s" "conflicts g row col v"
  shows "conflicts s row col v"
proof -
  obtain r c where o: "r < 9" "c < 9" "(r, c) \<noteq> (row, col)" "sameUnit r c row col"
      "valueAt g r c = Some v"
    using assms(2) unfolding conflicts_def by blast
  then have "valueAt s r c = Some v"
    using assms(1) unfolding extendsTo_def by (metis option.distinct(1))
  then show ?thesis
    unfolding conflicts_def using o by blast
qed

lemma solution_avoids_conflict:
  assumes "extendsTo g s" "consistent s" "row < 9" "col < 9" "conflicts g row col v"
  shows "valueAt s row col \<noteq> Some v"
  using conflicts_extendsTo [OF assms(1,5)] assms(2,3,4) unfolding consistent_def by blast

lemma consistent_setValue:
  assumes "consistent g" "r < 9" "c < 9" "v < 9" "\<not> conflicts g r c v"
    and set: "setValue g r c (Some v) = Inr g1"
  shows "consistent g1"
  unfolding consistent_def
proof (intro allI impI)
  fix r' c' w
  assume rc: "r' < 9" "c' < 9" and val: "valueAt g1 r' c' = Some w"
  note va = valueAt_setValue [OF set]
  show "w < 9 \<and> \<not> conflicts g1 r' c' w"
  proof (cases "r' = r \<and> c' = c")
    case True
    then have w: "w = v"
      using val by (simp add: va)
    have "\<not> conflicts g1 r c v"
      using assms(5) unfolding conflicts_def by (auto simp: va)
    then show ?thesis
      using w True assms(4) by simp
  next
    case False
    then have old: "valueAt g r' c' = Some w"
      using val by (auto simp: va)
    then have w9: "w < 9" and nc: "\<not> conflicts g r' c' w"
      using assms(1) rc unfolding consistent_def by blast+
    have "\<not> conflicts g1 r' c' w"
    proof
      assume "conflicts g1 r' c' w"
      then obtain r2 c2 where o: "r2 < 9" "c2 < 9" "(r2, c2) \<noteq> (r', c')"
          "sameUnit r2 c2 r' c'" "valueAt g1 r2 c2 = Some w"
        unfolding conflicts_def by blast
      show False
      proof (cases "r2 = r \<and> c2 = c")
        case True
        then have "w = v"
          using o(5) by (simp add: va)
        moreover have "sameUnit r' c' r c"
          using o(4) True by (simp add: sameUnit_sym)
        ultimately have "conflicts g r c v"
          unfolding conflicts_def using rc old False by blast
        then show False
          using assms(5) by simp
      next
        case False
        then have "valueAt g r2 c2 = Some w"
          using o(5) by (auto simp: va)
        then have "conflicts g r' c' w"
          unfolding conflicts_def using o by blast
        then show False
          using nc by simp
      qed
    qed
    then show ?thesis
      using w9 by simp
  qed
qed

lemma set_shuffleLoop:
  "k < length xs \<Longrightarrow> set (fst (shuffleLoop xs k rnd)) = set xs \<and>
     length (fst (shuffleLoop xs k rnd)) = length xs"
proof (induction k arbitrary: xs rnd)
  case 0
  then show ?case by simp
next
  case (Suc k)
  let ?j = "rnd 0 mod (Suc k + 1)"
  let ?ys = "xs[Suc k := xs ! ?j, ?j := xs ! Suc k]"
  have "?j < Suc k + 1"
    by (rule mod_less_divisor) simp
  then have j: "?j < length xs"
    using Suc.prems by linarith
  have "set ?ys = set xs"
    using Suc.prems j by (simp add: set_swap)
  moreover have "length ?ys = length xs"
    by simp
  moreover have "k < length ?ys"
    using Suc.prems by simp
  ultimately show ?case
    using Suc.IH [of ?ys "\<lambda>k. rnd (Suc k)"] by (simp add: randomIndex_def)
qed

lemma set_shuffle: "set (fst (shuffle xs rnd)) = set xs"
proof (cases xs)
  case Nil
  then show ?thesis
    by (simp add: shuffle_def)
next
  case (Cons x ys)
  then show ?thesis
    using set_shuffleLoop [of "length xs - 1" xs rnd] by (simp add: shuffle_def)
qed

section \<open>What the solve-one searches return\<close>

text \<open>
  A search that returns true leaves a full grid that extends the one it was given, with
  no conflict if there was none; a search that returns false leaves the grid as it was.
\<close>

definition searchPost :: "grid \<Rightarrow> bool \<Rightarrow> grid \<Rightarrow> bool" where
  "searchPost g b g' =
     (if b then filled g' \<and> extendsTo g g' \<and> (consistent g \<longrightarrow> consistent g') else g' = g)"

lemma searchPost_step:
  assumes "wf_grid g" "row < 9" "col < 9" "valueAt g row col = None" "num < 9"
    and "\<not> conflicts g row col num" "setValue g row col (Some num) = Inr g1"
    and "searchPost g1 True g'"
  shows "searchPost g True g'"
  using assms(8) extendsTo_trans [OF extendsTo_setValue [OF assms(1,7,4)], of g']
        consistent_setValue [OF _ assms(2,3,5,6,7)]
  by (auto simp: searchPost_def)

lemma generateSolution_spec:
  "wf_grid g \<Longrightarrow>
     \<exists>b g' rnd'. generateSolution g rnd = Inr (b, g', rnd') \<and> searchPost g b g' \<and>
       ((\<exists>s. extendsTo g s \<and> isSolvedGrid s) \<longrightarrow> b)"
  "wf_grid g \<Longrightarrow> row < 9 \<Longrightarrow> col < 9 \<Longrightarrow> valueAt g row col = None \<Longrightarrow> set nums \<subseteq> {..<9} \<Longrightarrow>
     \<exists>b g' rnd'. tryNumbers g row col nums rnd = Inr (b, g', rnd') \<and> searchPost g b g' \<and>
       ((\<exists>s. extendsTo g s \<and> isSolvedGrid s \<and> (\<exists>v \<in> set nums. valueAt s row col = Some v)) \<longrightarrow> b)"
proof (induction g rnd and g row col nums rnd rule: generateSolution_tryNumbers.induct)
  case (1 g rnd)
  from findEmptyCell_wf [OF "1.prems"] show ?case
  proof (elim disjE conjE exE)
    assume "findEmptyCell g = Inr None" "filled g"
    then show ?thesis
      using "1.prems" by (auto simp: generateSolution.simps searchPost_def extendsTo_refl)
  next
    fix row col
    assume fe: "findEmptyCell g = Inr (Some (row, col))"
      and rc: "row < 9" "col < 9" "valueAt g row col = None"
    obtain numbers rnd1 where sh: "shuffle [0..<9] rnd = (numbers, rnd1)"
      by (cases "shuffle [0..<9] rnd")
    have "set numbers = set [0..<9]"
      using set_shuffle [of "[0..<9]" rnd] sh by simp
    then have nums: "set numbers = {..<9}"
      by (simp only: set_upt atLeast0LessThan)
    then have sub: "set numbers \<subseteq> {..<9}"
      by simp
    from "1.IH" [OF fe refl refl sh [symmetric] "1.prems" rc sub]
    obtain b g' rnd' where res: "tryNumbers g row col numbers rnd1 = Inr (b, g', rnd')"
        "searchPost g b g'"
        "(\<exists>s. extendsTo g s \<and> isSolvedGrid s \<and> (\<exists>v \<in> set numbers. valueAt s row col = Some v)) \<longrightarrow> b"
      by blast
    have "b" if "extendsTo g s" "isSolvedGrid s" for s
    proof -
      have "filled s" "consistent s"
        using that(2) by (simp_all add: isSolvedGrid_iff)
      then obtain v where "valueAt s row col = Some v" "v < 9"
        using rc(1,2) unfolding filled_iff consistent_def by (metis not_None_eq)
      then show ?thesis
        using res(3) that nums by auto
    qed
    then show ?thesis
      using fe sh res(1,2) by (auto simp: generateSolution.simps)
  qed
next
  case (2 g row col rnd)
  then show ?case
    by (auto simp: tryNumbers.simps searchPost_def)
next
  case (3 g row col num rest rnd)
  note wf = "3.prems"(1) and rc = "3.prems"(2,3) and emp = "3.prems"(4)
  have num9: "num < 9" and sub: "set rest \<subseteq> {..<9}"
    using "3.prems"(5) by auto
  note valid = isValid_wf [OF wf rc emp, of num]
  show ?case
  proof (cases "conflicts g row col num")
    case True
    from "3.IH"(3) [OF valid _ wf rc emp sub] True
    obtain b g' rnd' where res: "tryNumbers g row col rest rnd = Inr (b, g', rnd')"
        "searchPost g b g'"
        "(\<exists>s. extendsTo g s \<and> isSolvedGrid s \<and> (\<exists>v \<in> set rest. valueAt s row col = Some v)) \<longrightarrow> b"
      by auto
    have "b" if "extendsTo g s" "isSolvedGrid s" "v \<in> set (num # rest)" "valueAt s row col = Some v"
      for s v
    proof -
      have "valueAt s row col \<noteq> Some num"
        using solution_avoids_conflict [OF that(1) _ rc True] that(2)
        by (simp add: isSolvedGrid_iff)
      then show ?thesis
        using res(3) that by auto
    qed
    then show ?thesis
      using valid True res(1,2) by (auto simp: tryNumbers.simps)
  next
    case False
    obtain g1 where g1: "setValue g row col (Some num) = Inr g1"
      using setValue_wf [OF wf rc] by blast
    have wf1: "wf_grid g1"
      using wf g1 by (rule wf_setValue)
    from "3.IH"(1) [OF valid _ g1 wf1] False
    obtain ok g2 rnd2 where call: "generateSolution g1 rnd = Inr (ok, g2, rnd2)"
        "searchPost g1 ok g2" "(\<exists>s. extendsTo g1 s \<and> isSolvedGrid s) \<longrightarrow> ok"
      by auto
    show ?thesis
    proof (cases ok)
      case True
      then have "searchPost g True g2"
        using searchPost_step [OF wf rc emp num9 False g1] call(2) by simp
      then show ?thesis
        using valid False g1 call(1) True by (auto simp: tryNumbers.simps)
    next
      case notok: False
      then have g2: "g2 = g1"
        using call(2) by (simp add: searchPost_def)
      have g3: "setValue g2 row col None = Inr g"
        unfolding g2 using g1 emp by (rule setValue_clear_again)
      from "3.IH"(2) [OF valid _ g1 call(1) refl refl notok g3 wf rc emp sub] False
      obtain b g' rnd' where res: "tryNumbers g row col rest rnd2 = Inr (b, g', rnd')"
          "searchPost g b g'"
          "(\<exists>s. extendsTo g s \<and> isSolvedGrid s \<and> (\<exists>v \<in> set rest. valueAt s row col = Some v)) \<longrightarrow> b"
        by auto
      have "b" if "extendsTo g s" "isSolvedGrid s" "v \<in> set (num # rest)" "valueAt s row col = Some v"
        for s v
      proof -
        have "v \<noteq> num"
          using extendsTo_into [OF that(1) g1] that(2,4) call(3) notok by auto
        then show ?thesis
          using res(3) that by auto
      qed
      then show ?thesis
        using valid False g1 call(1) notok g3 res(1,2) by (auto simp: tryNumbers.simps)
    qed
  qed
qed

text \<open>A placement check as both modules export it: on a 9x9 grid it is true exactly when
  no other cell of the row, the column or the box holds the value.\<close>

definition placementCheck :: "(grid \<Rightarrow> nat \<Rightarrow> nat \<Rightarrow> nat \<Rightarrow> error + bool) \<Rightarrow> bool" where
  "placementCheck chk =
     (\<forall>g row col v. wf_grid g \<longrightarrow> row < 9 \<longrightarrow> col < 9 \<longrightarrow>
        chk g row col v = Inr (\<not> conflicts g row col v))"

lemma placementCheck_checkPlacement: "placementCheck checkPlacement"
  by (simp add: placementCheck_def checkPlacement_wf)

lemma placementCheck_checkPlacement2: "placementCheck checkPlacement2"
  by (simp add: placementCheck_def checkPlacement2_wf)

lemma solveGridWith_spec:
  "placementCheck chk \<Longrightarrow> wf_grid g \<Longrightarrow>
     \<exists>b g'. solveGridWith chk g = Inr (b, g') \<and> searchPost g b g' \<and>
       ((\<exists>s. extendsTo g s \<and> isSolvedGrid s) \<longrightarrow> b)"
  "placementCheck chk \<Longrightarrow> wf_grid g \<Longrightarrow> row < 9 \<Longrightarrow> col < 9 \<Longrightarrow> valueAt g row col = None \<Longrightarrow>
     \<exists>b g'. solveLoop chk g row col num = Inr (b, g') \<and> searchPost g b g' \<and>
       ((\<exists>s. extendsTo g s \<and> isSolvedGrid s \<and>
            (\<exists>v. num \<le> v \<and> v < 9 \<and> valueAt s row col = Some v)) \<longrightarrow> b)"
proof (induction chk g and chk g row col num rule: solveGridWith_solveLoop.induct)
  case (1 chk g)
  note pc = "1.prems"(1) and wf = "1.prems"(2)
  from findEmptyCell_wf [OF wf] show ?case
  proof (elim disjE conjE exE)
    assume "findEmptyCell g = Inr None" "filled g"
    then show ?thesis
      using wf by (auto simp: solveGridWith.simps searchPost_def extendsTo_refl)
  next
    fix row col
    assume fe: "findEmptyCell g = Inr (Some (row, col))"
      and rc: "row < 9" "col < 9" "valueAt g row col = None"
    from "1.IH" [OF fe refl refl pc wf rc]
    obtain b g' where res: "solveLoop chk g row col 0 = Inr (b, g')" "searchPost g b g'"
        "(\<exists>s. extendsTo g s \<and> isSolvedGrid s \<and>
            (\<exists>v. 0 \<le> v \<and> v < 9 \<and> valueAt s row col = Some v)) \<longrightarrow> b"
      by (elim exE conjE) (erule (2) that)
    have "b" if "extendsTo g s" "isSolvedGrid s" for s
    proof -
      have "filled s" "consistent s"
        using that(2) by (simp_all add: isSolvedGrid_iff)
      then obtain v where "valueAt s row col = Some v" "v < 9"
        using rc(1,2) unfolding filled_iff consistent_def by (metis not_None_eq)
      then show ?thesis
        using res(3) that by auto
    qed
    then show ?thesis
      using fe res(1,2) by (auto simp: solveGridWith.simps)
  qed
next
  case (2 chk g row col num)
  note pc = "2.prems"(1) and wf = "2.prems"(2) and rc = "2.prems"(3,4) and emp = "2.prems"(5)
  show ?case
  proof (cases "num < 9")
    case False
    then show ?thesis
      by (auto simp: solveLoop.simps searchPost_def)
  next
    case lt: True
    have valid: "chk g row col num = Inr (\<not> conflicts g row col num)"
      using pc wf rc by (simp add: placementCheck_def)
    show ?thesis
    proof (cases "conflicts g row col num")
      case True
      from "2.IH"(3) [OF lt valid _ pc wf rc emp] True
      obtain b g' where res: "solveLoop chk g row col (num + 1) = Inr (b, g')" "searchPost g b g'"
          "(\<exists>s. extendsTo g s \<and> isSolvedGrid s \<and>
              (\<exists>v. num + 1 \<le> v \<and> v < 9 \<and> valueAt s row col = Some v)) \<longrightarrow> b"
        by auto
      have "b" if "extendsTo g s" "isSolvedGrid s" "num \<le> v" "v < 9" "valueAt s row col = Some v"
        for s v
      proof -
        have "valueAt s row col \<noteq> Some num"
          using solution_avoids_conflict [OF that(1) _ rc True] that(2)
          by (simp add: isSolvedGrid_iff)
        then have "num + 1 \<le> v"
          using that(3,5) by (cases "v = num") auto
        then show ?thesis
          using res(3) that by blast
      qed
      then show ?thesis
        using lt valid True res(1,2) by (auto simp: solveLoop.simps [of chk g row col num])
    next
      case False
      obtain g1 where g1: "setValue g row col (Some num) = Inr g1"
        using setValue_wf [OF wf rc] by blast
      have wf1: "wf_grid g1"
        using wf g1 by (rule wf_setValue)
      from "2.IH"(1) [OF lt valid _ g1 pc wf1] False
      obtain ok g2 where call: "solveGridWith chk g1 = Inr (ok, g2)"
          "searchPost g1 ok g2" "(\<exists>s. extendsTo g1 s \<and> isSolvedGrid s) \<longrightarrow> ok"
        by auto
      show ?thesis
      proof (cases ok)
        case True
        then have "searchPost g True g2"
          using searchPost_step [OF wf rc emp lt False g1] call(2) by simp
        then show ?thesis
          using lt valid False g1 call(1) True
          by (auto simp: solveLoop.simps [of chk g row col num])
      next
        case notok: False
        then have g2: "g2 = g1"
          using call(2) by (simp add: searchPost_def)
        have g3: "setValue g2 row col None = Inr g"
          unfolding g2 using g1 emp by (rule setValue_clear_again)
        from "2.IH"(2) [OF lt valid _ g1 call(1) refl notok g3 pc wf rc emp] False
        obtain b g' where res: "solveLoop chk g row col (num + 1) = Inr (b, g')" "searchPost g b g'"
            "(\<exists>s. extendsTo g s \<and> isSolvedGrid s \<and>
                (\<exists>v. num + 1 \<le> v \<and> v < 9 \<and> valueAt s row col = Some v)) \<longrightarrow> b"
          by auto
        have "b" if "extendsTo g s" "isSolvedGrid s" "num \<le> v" "v < 9" "valueAt s row col = Some v"
          for s v
        proof -
          have "v \<noteq> num"
            using extendsTo_into [OF that(1) g1] that(2,5) call(3) notok by auto
          then have "num + 1 \<le> v"
            using that(3) by simp
          then show ?thesis
            using res(3) that by blast
        qed
        then show ?thesis
          using lt valid False g1 call(1) notok g3 res(1,2)
          by (auto simp: solveLoop.simps [of chk g row col num])
      qed
    qed
  qed
qed

lemma findSolutions_total:
  "wf_grid g \<Longrightarrow> \<exists>sols'. findSolutions g sols = Inr (g, sols')"
  "wf_grid g \<Longrightarrow> row < 9 \<Longrightarrow> col < 9 \<Longrightarrow> valueAt g row col = None \<Longrightarrow>
     \<exists>sols'. findLoop g row col num sols = Inr (g, sols')"
proof (induction g sols and g row col num sols rule: findSolutions_findLoop.induct)
  case (1 g sols)
  from findEmptyCell_wf [OF "1.prems"] show ?case
  proof (elim disjE conjE exE)
    assume "findEmptyCell g = Inr None"
    then show ?thesis
      by (simp add: findSolutions.simps)
  next
    fix row col
    assume fe: "findEmptyCell g = Inr (Some (row, col))"
      and rc: "row < 9" "col < 9" "valueAt g row col = None"
    from "1.IH" [OF fe refl refl "1.prems" rc] show ?thesis
      using fe by (simp add: findSolutions.simps)
  qed
next
  case (2 g row col num sols)
  note wf = "2.prems"(1) and rc = "2.prems"(2,3) and emp = "2.prems"(4)
  show ?case
  proof (cases "num < 9")
    case False
    then show ?thesis
      by (simp add: findLoop.simps)
  next
    case lt: True
    note valid = checkPlacement2_wf [OF wf rc, of num]
    show ?thesis
    proof (cases "conflicts g row col num")
      case True
      from "2.IH"(3) [OF lt valid] True wf rc emp show ?thesis
        using lt valid by (simp add: findLoop.simps [of g row col num])
    next
      case False
      obtain g1 where g1: "setValue g row col (Some num) = Inr g1"
        using setValue_wf [OF wf rc] by blast
      have wf1: "wf_grid g1"
        using wf g1 by (rule wf_setValue)
      obtain sols1 where call: "findSolutions g1 sols = Inr (g1, sols1)"
        using "2.IH"(1) [OF lt valid _ g1 wf1] False by auto
      have g3: "setValue g1 row col None = Inr g"
        using g1 emp by (rule setValue_clear_again)
      show ?thesis
      proof (cases "1 < length sols1")
        case True
        then show ?thesis
          using lt valid False g1 call g3
          by (simp add: findLoop.simps [of g row col num])
      next
        case more: False
        from "2.IH"(2) [OF lt valid _ g1 call refl g3 more wf rc emp] False
        show ?thesis
          using lt valid g1 call g3 more
          by (simp add: findLoop.simps [of g row col num])
      qed
    qed
  qed
qed

section \<open>The win check\<close>

definition coloursInRange :: "grid \<Rightarrow> bool" where
  "coloursInRange g =
     (\<forall>(r, c) \<in> set allCells. case valueAt g r c of None \<Rightarrow> True | Some v \<Rightarrow> v < 9)"

lemma coloursInRange_iff:
  "coloursInRange g = (\<forall>r<9. \<forall>c<9. \<forall>v. valueAt g r c = Some v \<longrightarrow> v < 9)"
proof
  assume a: "coloursInRange g"
  show "\<forall>r<9. \<forall>c<9. \<forall>v. valueAt g r c = Some v \<longrightarrow> v < 9"
  proof (intro allI impI)
    fix r c v :: nat assume "r < 9" "c < 9" and "valueAt g r c = Some v"
    moreover have "(r, c) \<in> set allCells"
      using \<open>r < 9\<close> \<open>c < 9\<close> by (simp add: mem_allCells)
    ultimately show "v < 9"
      using a unfolding coloursInRange_def by fastforce
  qed
next
  assume a: "\<forall>r<9. \<forall>c<9. \<forall>v. valueAt g r c = Some v \<longrightarrow> v < 9"
  show "coloursInRange g"
    unfolding coloursInRange_def
  proof (intro ballI)
    fix p assume p: "p \<in> set allCells"
    obtain r c where rc: "p = (r, c)"
      by (cases p)
    then have "r < 9" "c < 9"
      using p mem_allCells [of r c] by simp_all
    then have "\<And>v. valueAt g r c = Some v \<Longrightarrow> v < 9"
      using a by blast
    then have "case valueAt g r c of None \<Rightarrow> True | Some v \<Rightarrow> v < 9"
      by (cases "valueAt g r c") simp_all
    then show "case p of (r, c) \<Rightarrow> (case valueAt g r c of None \<Rightarrow> True | Some v \<Rightarrow> v < 9)"
      using rc by simp
  qed
qed

lemma noCellEmpty_wf:
  "wf_grid g \<Longrightarrow> \<forall>(r, c) \<in> set ps. r < 9 \<and> c < 9 \<Longrightarrow>
   noCellEmpty g ps = Inr (\<forall>(r, c) \<in> set ps. valueAt g r c \<noteq> None)"
  by (induction ps) (auto simp: cellAt_wf valueAt_def)

lemma noCellEmpty_allCells: "wf_grid g \<Longrightarrow> noCellEmpty g allCells = Inr (filled g)"
  using noCellEmpty_wf [of g allCells] mem_allCells by (auto simp: filled_def)

lemma valuesAt_wf:
  "wf_grid g \<Longrightarrow> \<forall>(r, c) \<in> set ps. r < 9 \<and> c < 9 \<Longrightarrow>
   valuesAt g ps = Inr (map (\<lambda>p. valueAt g (fst p) (snd p)) ps)"
  by (induction ps) (auto simp: cellAt_wf valueAt_def)

lemma nine: "[0..<9] = [0, 1, 2, 3, 4, 5, 6, 7, 8::nat]"
  by (simp add: upt_rec)

lemma box_list: "map (\<lambda>j. (sr + j div 3, sc + j mod 3)) [0..<9] = boxCells sr sc"
proof -
  have three: "[0..<3] = [0, 1, 2::nat]"
    by (simp add: upt_rec)
  show ?thesis
    by (simp add: boxCells_def three nine)
qed

lemma setSize_unit:
  assumes "filled g" "coloursInRange g" "distinct ps" "set ps \<in> units"
  shows "(setSize (map (\<lambda>p. valueAt g (fst p) (snd p)) ps) = 9) = containsEachOnce g (set ps)"
proof -
  let ?f = "\<lambda>p. valueAt g (fst p) (snd p)"
  note cu = card_unit [OF assms(4)]
  have len: "length ps = 9"
    using cu distinct_card [OF assms(3)] by simp
  have "?f p \<in> Some ` {..<9}" if "p \<in> set ps" for p
  proof -
    have rc: "fst p < 9" "snd p < 9"
      using unit_in_range [OF assms(4), of "fst p" "snd p"] that by simp_all
    then obtain v where v: "?f p = Some v"
      using assms(1) unfolding filled_iff by blast
    then have "v < 9"
      using assms(2) rc unfolding coloursInRange_iff by blast
    then show ?thesis
      using v by simp
  qed
  then have img: "?f ` set ps \<subseteq> Some ` {..<9}"
    by blast
  have "(setSize (map ?f ps) = 9) = (length (remdups (map ?f ps)) = length (map ?f ps))"
    using len by (simp add: setSize_def)
  also have "\<dots> = distinct (map ?f ps)"
    by (simp only: length_remdups_eq remdups_id_iff_distinct)
  also have "\<dots> = inj_on ?f (set ps)"
    using assms(3) by (simp add: distinct_map)
  also have "\<dots> = containsEachOnce g (set ps)"
    using each_once_iff_inj_on [OF _ _ img] cu by (simp add: containsEachOnce_def)
  finally show ?thesis .
qed

lemma checkUnits_wf:
  assumes "wf_grid g" "filled g" "coloursInRange g"
  shows "set idx \<subseteq> {..<9} \<Longrightarrow>
         checkUnits g idx =
           Inr (\<forall>i \<in> set idx. containsEachOnce g (rowUnit i) \<and> containsEachOnce g (colUnit i) \<and>
                               containsEachOnce g (boxUnit i))"
proof (induction idx)
  case Nil
  then show ?case by simp
next
  case (Cons i idx)
  then have i9: "i < 9"
    by simp
  let ?row = "map (\<lambda>j. (i, j)) [0..<9]"
  let ?col = "map (\<lambda>j. (j, i)) [0..<9]"
  let ?box = "map (\<lambda>j. (i div 3 * 3 + j div 3, i mod 3 * 3 + j mod 3)) [0..<9]"
  let ?f = "\<lambda>p. valueAt g (fst p) (snd p)"
  have srow: "set ?row = rowUnit i" and scol: "set ?col = colUnit i"
    by (auto simp: rowUnit_def colUnit_def)
  have sbox: "set ?box = boxUnit i"
    by (simp only: box_list boxUnit_boxCells)
  have dist: "distinct ?row" "distinct ?col" "distinct ?box"
    by (simp_all add: distinct_map inj_on_def box_list distinct_boxCells del: upt.simps)
  have un: "rowUnit i \<in> units" "colUnit i \<in> units" "boxUnit i \<in> units"
    using i9 by (auto simp: units_def)
  have inr: "\<forall>(r, c) \<in> set ?row. r < 9 \<and> c < 9" "\<forall>(r, c) \<in> set ?col. r < 9 \<and> c < 9"
      "\<forall>(r, c) \<in> set ?box. r < 9 \<and> c < 9"
    unfolding srow scol sbox using unit_in_range un by blast+
  have vals: "valuesAt g ?row = Inr (map ?f ?row)" "valuesAt g ?col = Inr (map ?f ?col)"
      "valuesAt g ?box = Inr (map ?f ?box)"
    using valuesAt_wf [OF assms(1)] inr by blast+
  have sizes: "(setSize (map ?f ?row) = 9) = containsEachOnce g (rowUnit i)"
      "(setSize (map ?f ?col) = 9) = containsEachOnce g (colUnit i)"
      "(setSize (map ?f ?box) = 9) = containsEachOnce g (boxUnit i)"
    using setSize_unit [OF assms(2,3) dist(1)] setSize_unit [OF assms(2,3) dist(2)]
          setSize_unit [OF assms(2,3) dist(3)] un
    unfolding srow scol sbox by blast+
  have rest: "checkUnits g idx =
      Inr (\<forall>i \<in> set idx. containsEachOnce g (rowUnit i) \<and> containsEachOnce g (colUnit i) \<and>
                          containsEachOnce g (boxUnit i))"
    using Cons by simp
  show ?case
    unfolding checkUnits.simps vals sum.case sizes rest by auto
qed

text \<open>On a 9x9 grid whose colours are in range, \<open>checkWin\<close> of the first module is true
  exactly for the solved grids.\<close>

lemma checkWin_wf:
  assumes "wf_grid g" "coloursInRange g"
  shows "checkWin g = Inr (isSolvedGrid g)"
proof (cases "filled g")
  case False
  then show ?thesis
    using assms(1) by (simp add: checkWin_def noCellEmpty_allCells isSolvedGrid_def)
next
  case True
  have "set [0..<9] \<subseteq> {..<(9::nat)}"
    by (simp only: set_upt atLeast0LessThan)
  from checkUnits_wf [OF assms(1) True assms(2) this]
  have "checkUnits g [0..<9] = Inr (isSolvedGrid g)"
    using True by (simp only: isSolvedGrid_def set_upt atLeast0LessThan) (simp add: Ball_def)
  then show ?thesis
    using assms(1) True by (simp add: checkWin_def noCellEmpty_allCells)
qed

lemma checkWin2_wf: "wf_grid g \<Longrightarrow> checkWin2 g = Inr (filled g)"
  by (simp add: checkWin2_def noCellEmpty_allCells)

section \<open>Counting completions\<close>

text \<open>The grid with colour \<open>v\<close> written into \<open>(r, c)\<close> (the grid itself where there is no
  such cell).\<close>

definition put :: "grid \<Rightarrow> nat \<Rightarrow> nat \<Rightarrow> nat \<Rightarrow> grid" where
  "put g r c v = (case setValue g r c (Some v) of Inl e \<Rightarrow> g | Inr g1 \<Rightarrow> g1)"

lemma setValue_put:
  "wf_grid g \<Longrightarrow> r < 9 \<Longrightarrow> c < 9 \<Longrightarrow> setValue g r c (Some v) = Inr (put g r c v)"
  using setValue_wf [of g r c "Some v"] by (auto simp: put_def)

lemma finite_completions: "finite (completions g)"
proof -
  let ?C = "(\<lambda>(v, b). \<lparr>cell_value = Some v, isFixed = b\<rparr>) ` ({..<(9::nat)} \<times> (UNIV :: bool set))"
  let ?R = "{row. set row \<subseteq> ?C \<and> length row = 9}"
  let ?G = "{s. set s \<subseteq> ?R \<and> length s = 9}"
  have "finite ?C"
    by simp
  then have "finite ?R"
    by (rule finite_lists_length_eq)
  then have fin: "finite ?G"
    by (rule finite_lists_length_eq)
  have "completions g \<subseteq> ?G"
  proof
    fix s assume "s \<in> completions g"
    then have wf: "wf_grid s" and sol: "isSolvedGrid s"
      by (simp_all add: completions_def extendsTo_def)
    have full: "filled s" and cons: "consistent s"
      using sol by (simp_all add: isSolvedGrid_iff)
    have "row \<in> ?R" if mem: "row \<in> set s" for row
    proof -
      obtain r where "r < length s" "s ! r = row"
        using mem by (auto simp: in_set_conv_nth)
      then have r: "r < 9" "row = s ! r"
        using wf by (simp_all add: wf_grid_def)
      have len: "length row = 9"
        using mem wf by (simp add: wf_grid_def)
      have "cl \<in> ?C" if memc: "cl \<in> set row" for cl
      proof -
        obtain c where "c < length row" "row ! c = cl"
          using memc by (auto simp: in_set_conv_nth)
        then have c: "c < 9" "cl = row ! c"
          using len by simp_all
        obtain v where v: "valueAt s r c = Some v"
          using full r(1) c(1) unfolding filled_iff by blast
        then have "v < 9"
          using cons r(1) c(1) unfolding consistent_def by blast
        moreover have "cl = \<lparr>cell_value = Some v, isFixed = isFixed cl\<rparr>"
          using v r(2) c(2) by (simp add: valueAt_def)
        ultimately have "cl = (\<lambda>(v, b). \<lparr>cell_value = Some v, isFixed = b\<rparr>) (v, isFixed cl)"
          and "(v, isFixed cl) \<in> {..<9} \<times> UNIV"
          by simp_all
        then show ?thesis
          by (rule image_eqI)
      qed
      then show ?thesis
        using len by blast
    qed
    then show "s \<in> ?G"
      using wf by (auto simp: wf_grid_def)
  qed
  then show ?thesis
    using fin by (rule finite_subset)
qed

lemma completions_filled:
  assumes "wf_grid g" "filled g" "consistent g"
  shows "completions g = {g}"
proof (intro equalityI subsetI)
  fix s assume "s \<in> completions g"
  then have ext: "extendsTo g s"
    by (simp add: completions_def)
  have "s = g"
  proof (rule grid_eqI)
    show "wf_grid s"
      using ext by (simp add: extendsTo_def)
    show "wf_grid g"
      by (rule assms(1))
    fix r c :: nat assume "r < 9" "c < 9"
    then show "valueAt s r c = valueAt g r c \<and> fixedAt s r c = fixedAt g r c"
      using ext assms(2) unfolding extendsTo_def filled_iff by blast
  qed
  then show "s \<in> {g}"
    by simp
next
  fix s assume "s \<in> {g}"
  then show "s \<in> completions g"
    using assms by (simp add: completions_def extendsTo_refl consistent_imp_solved)
qed

lemma completions_conflict:
  assumes "wf_grid g" "r < 9" "c < 9" "valueAt g r c = None" "conflicts g r c v"
  shows "completions (put g r c v) = {}"
proof (rule ccontr)
  assume "completions (put g r c v) \<noteq> {}"
  then obtain s where s: "extendsTo (put g r c v) s" "isSolvedGrid s"
    by (auto simp: completions_def)
  note sv = setValue_put [OF assms(1,2,3), of v]
  have "valueAt (put g r c v) r c = Some v"
    by (simp add: valueAt_setValue [OF sv])
  then have "valueAt s r c = Some v"
    using s(1) assms(2,3) unfolding extendsTo_def by (metis option.distinct(1))
  moreover have "valueAt s r c \<noteq> Some v"
    using solution_avoids_conflict [OF extendsTo_from [OF s(1) sv assms(4)] _ assms(2,3,5)] s(2)
    by (simp add: isSolvedGrid_iff)
  ultimately show False
    by simp
qed

lemma completions_split:
  assumes "wf_grid g" "r < 9" "c < 9" "valueAt g r c = None"
  shows "completions g = (\<Union>v \<in> {0..<9}. completions (put g r c v))"
proof (intro equalityI subsetI)
  fix s assume "s \<in> completions g"
  then have s: "extendsTo g s" "isSolvedGrid s"
    by (simp_all add: completions_def)
  have "filled s" "consistent s"
    using s(2) by (simp_all add: isSolvedGrid_iff)
  then obtain v where v: "valueAt s r c = Some v" "v < 9"
    using assms(2,3) unfolding filled_iff consistent_def by (metis not_None_eq)
  have "extendsTo (put g r c v) s"
    using s(1) setValue_put [OF assms(1,2,3)] v(1) by (rule extendsTo_into)
  then show "s \<in> (\<Union>v \<in> {0..<9}. completions (put g r c v))"
    using s(2) v(2) by (auto simp: completions_def)
next
  fix s assume "s \<in> (\<Union>v \<in> {0..<9}. completions (put g r c v))"
  then obtain v where "extendsTo (put g r c v) s" "isSolvedGrid s"
    by (auto simp: completions_def)
  then show "s \<in> completions g"
    using extendsTo_from [OF _ setValue_put [OF assms(1,2,3)] assms(4)]
    by (simp add: completions_def)
qed

lemma completions_disjoint:
  assumes "wf_grid g" "r < 9" "c < 9" "v \<noteq> w"
  shows "completions (put g r c v) \<inter> completions (put g r c w) = {}"
proof (rule ccontr)
  assume "completions (put g r c v) \<inter> completions (put g r c w) \<noteq> {}"
  then obtain s where s: "extendsTo (put g r c v) s" "extendsTo (put g r c w) s"
    by (auto simp: completions_def)
  have "valueAt (put g r c v) r c = Some v" "valueAt (put g r c w) r c = Some w"
    by (simp_all add: valueAt_setValue [OF setValue_put [OF assms(1,2,3)]])
  then have "valueAt s r c = Some v" "valueAt s r c = Some w"
    using s assms(2,3) unfolding extendsTo_def by (metis option.distinct(1))+
  then show False
    using assms(4) by simp
qed

lemma card_completions_split:
  assumes "wf_grid g" "r < 9" "c < 9" "valueAt g r c = None"
  shows "card (completions g) = (\<Sum>v \<in> {0..<9}. card (completions (put g r c v)))"
  unfolding completions_split [OF assms]
  by (rule card_UN_disjoint) (auto simp: finite_completions completions_disjoint [OF assms(1,2,3)])

lemma countSolutions_counts:
  "wf_grid g \<Longrightarrow> consistent g \<Longrightarrow> 1 \<le> limit \<Longrightarrow>
     countSolutions g limit = Inr (min (int (card (completions g))) limit, g)"
  "wf_grid g \<Longrightarrow> consistent g \<Longrightarrow> row < 9 \<Longrightarrow> col < 9 \<Longrightarrow> valueAt g row col = None \<Longrightarrow>
   0 \<le> solutions \<Longrightarrow> solutions < limit \<Longrightarrow>
     countLoop g row col limit num solutions =
       Inr (min (solutions + int (\<Sum>v \<in> {num..<9}. card (completions (put g row col v)))) limit, g)"
proof (induction g limit and g row col limit num solutions
       rule: countSolutions_countLoop.induct)
  case (1 g limit)
  note wf = "1.prems"(1) and cons = "1.prems"(2) and lim = "1.prems"(3)
  from findEmptyCell_wf [OF wf] show ?case
  proof (elim disjE conjE exE)
    assume "findEmptyCell g = Inr None" "filled g"
    then show ?thesis
      using lim by (simp add: countSolutions.simps completions_filled [OF wf _ cons])
  next
    fix row col
    assume fe: "findEmptyCell g = Inr (Some (row, col))"
      and rc: "row < 9" "col < 9" "valueAt g row col = None"
    have "0 \<le> (0::int)" "0 < limit"
      using lim by simp_all
    from "1.IH" [OF fe refl refl wf cons rc this] show ?thesis
      using fe by (simp add: countSolutions.simps card_completions_split [OF wf rc])
  qed
next
  case (2 g row col limit num solutions)
  note wf = "2.prems"(1) and cons = "2.prems"(2) and rc = "2.prems"(3,4) and emp = "2.prems"(5)
    and sols = "2.prems"(6,7)
  let ?N = "\<lambda>v. card (completions (put g row col v))"
  show ?case
  proof (cases "num < 9")
    case False
    then show ?thesis
      using sols by (simp add: countLoop.simps)
  next
    case lt: True
    note valid = isValid_wf [OF wf rc emp, of num]
    have split: "(\<Sum>v \<in> {num..<9}. ?N v) = ?N num + (\<Sum>v \<in> {num + 1..<9}. ?N v)"
      using lt by (simp add: sum.atLeast_Suc_lessThan)
    show ?thesis
    proof (cases "conflicts g row col num")
      case True
      have "?N num = 0"
        using completions_conflict [OF wf rc emp True] by simp
      then show ?thesis
        using "2.IH"(3) [OF lt valid _ wf cons rc emp sols] True lt valid split
        by (simp add: countLoop.simps [of g row col limit num])
    next
      case False
      note g1 = setValue_put [OF wf rc, of num]
      have wf1: "wf_grid (put g row col num)"
        using wf g1 by (rule wf_setValue)
      have cons1: "consistent (put g row col num)"
        using consistent_setValue [OF cons rc lt False g1] .
      have lim1: "1 \<le> limit - solutions"
        using sols by simp
      have call: "countSolutions (put g row col num) (limit - solutions) =
          Inr (min (int (?N num)) (limit - solutions), put g row col num)"
        using "2.IH"(1) [OF lt valid _ g1 wf1 cons1 lim1] False by simp
      have g3: "setValue (put g row col num) row col None = Inr g"
        using g1 emp by (rule setValue_clear_again)
      define n where "n = min (int (?N num)) (limit - solutions)"
      have call': "countSolutions (put g row col num) (limit - solutions) = Inr (n, put g row col num)"
        using call by (simp add: n_def)
      show ?thesis
      proof (cases "limit \<le> solutions + n")
        case True
        have stop: "countLoop g row col limit num solutions = Inr (solutions + n, g)"
          using lt valid False g1 call' g3 True
          by (simp add: countLoop.simps [of g row col limit num])
        have a: "limit \<le> solutions + int (?N num)"
          using True by (simp add: n_def)
        then have b: "solutions + n = limit"
          using sols by (simp add: n_def)
        have "0 \<le> int (\<Sum>v \<in> {num + 1..<9}. ?N v)"
          by (rule of_nat_0_le_iff)
        then have "limit \<le> solutions + int (\<Sum>v \<in> {num..<9}. ?N v)"
          using a unfolding split by linarith
        then have "min (solutions + int (\<Sum>v \<in> {num..<9}. ?N v)) limit = solutions + n"
          unfolding b by simp
        then show ?thesis
          using stop by simp
      next
        case less: False
        have go: "countLoop g row col limit num solutions =
            countLoop g row col limit (num + 1) (solutions + n)"
          using lt valid False g1 call' g3 less
          by (simp add: countLoop.simps [of g row col limit num])
        have n: "n = int (?N num)"
          using less by (simp add: n_def)
        have s0: "0 \<le> solutions + n" and s1: "solutions + n < limit"
          using sols less by (simp_all add: n_def)
        have "countLoop g row col limit (num + 1) (solutions + n) =
            Inr (min (solutions + n + int (\<Sum>v \<in> {num + 1..<9}. ?N v)) limit, g)"
          using "2.IH"(2) [OF lt valid _ g1 call' refl g3 less wf cons rc emp s0 s1] False by simp
        moreover have "solutions + n + int (\<Sum>v \<in> {num + 1..<9}. ?N v) =
            solutions + int (\<Sum>v \<in> {num..<9}. ?N v)"
          unfolding split n by simp
        ultimately show ?thesis
          unfolding go by simp
      qed
    qed
  qed
qed

lemma countSolutions_bounded:
  "wf_grid g \<Longrightarrow> 1 \<le> limit \<Longrightarrow>
     \<exists>n. countSolutions g limit = Inr (n, g) \<and> 0 \<le> n \<and> n \<le> limit"
  "wf_grid g \<Longrightarrow> row < 9 \<Longrightarrow> col < 9 \<Longrightarrow> valueAt g row col = None \<Longrightarrow>
   0 \<le> solutions \<Longrightarrow> solutions < limit \<Longrightarrow>
     \<exists>n. countLoop g row col limit num solutions = Inr (n, g) \<and> solutions \<le> n \<and> n \<le> limit"
proof (induction g limit and g row col limit num solutions
       rule: countSolutions_countLoop.induct)
  case (1 g limit)
  note wf = "1.prems"(1) and lim = "1.prems"(2)
  from findEmptyCell_wf [OF wf] show ?case
  proof (elim disjE conjE exE)
    assume "findEmptyCell g = Inr None"
    then show ?thesis
      using lim by (simp add: countSolutions.simps)
  next
    fix row col
    assume fe: "findEmptyCell g = Inr (Some (row, col))"
      and rc: "row < 9" "col < 9" "valueAt g row col = None"
    have "0 \<le> (0::int)" "0 < limit"
      using lim by simp_all
    from "1.IH" [OF fe refl refl wf rc this] show ?thesis
      using fe by (simp add: countSolutions.simps)
  qed
next
  case (2 g row col limit num solutions)
  note wf = "2.prems"(1) and rc = "2.prems"(2,3) and emp = "2.prems"(4) and sols = "2.prems"(5,6)
  show ?case
  proof (cases "num < 9")
    case False
    then show ?thesis
      using sols by (simp add: countLoop.simps)
  next
    case lt: True
    note valid = isValid_wf [OF wf rc emp, of num]
    show ?thesis
    proof (cases "conflicts g row col num")
      case True
      from "2.IH"(3) [OF lt valid _ wf rc emp sols] True show ?thesis
        using lt valid by (simp add: countLoop.simps [of g row col limit num])
    next
      case False
      obtain g1 where g1: "setValue g row col (Some num) = Inr g1"
        using setValue_wf [OF wf rc] by blast
      have wf1: "wf_grid g1"
        using wf g1 by (rule wf_setValue)
      have lim1: "1 \<le> limit - solutions"
        using sols by simp
      obtain n where call: "countSolutions g1 (limit - solutions) = Inr (n, g1)"
          and n: "0 \<le> n" "n \<le> limit - solutions"
        using "2.IH"(1) [OF lt valid _ g1 wf1 lim1] False by auto
      have g3: "setValue g1 row col None = Inr g"
        using g1 emp by (rule setValue_clear_again)
      show ?thesis
      proof (cases "limit \<le> solutions + n")
        case True
        then show ?thesis
          using lt valid False g1 call g3 n
          by (simp add: countLoop.simps [of g row col limit num])
      next
        case less: False
        have s0: "0 \<le> solutions + n" and s1: "solutions + n < limit"
          using sols n less by simp_all
        from "2.IH"(2) [OF lt valid _ g1 call refl g3 less wf rc emp s0 s1] False
        obtain m where "countLoop g row col limit (num + 1) (solutions + n) = Inr (m, g)"
            "solutions + n \<le> m" "m \<le> limit"
          by auto
        then show ?thesis
          using lt valid False g1 call g3 less n
          by (simp add: countLoop.simps [of g row col limit num])
      qed
    qed
  qed
qed

section \<open>Fixtures\<close>

text \<open>A grid of non-fixed cells from rows of values, for the concrete instances below.\<close>

definition gridOf :: "nat option list list \<Rightarrow> grid" where
  "gridOf rows = map (map (\<lambda>v. \<lparr>cell_value = v, isFixed = False\<rparr>)) rows"

text \<open>Value 2 at (0,0) and at (0,1) in an otherwise empty grid.\<close>

definition twoTwos :: grid where
  "twoTwos = gridOf (([Some 2, Some 2] @ replicate 7 None) # replicate 8 (replicate 9 None))"

section \<open>Placement check\<close>

text \<open>
  C3. For a 9x9 grid and a cell \<open>(row, col)\<close> in range, \<open>checkPlacement\<close> returns false if
  and only if some cell other than \<open>(row, col)\<close> in its row, its column or its 3x3 box
  holds the value; the cell itself is not compared. This holds for the \<open>checkPlacement\<close>
  of both game-logic modules (the second one skips, in the box, the cells of the row
  and of the column of \<open>(row, col)\<close>, which its row and column loops have compared).
\<close>

theorem checkPlacement_false_iff_conflict:
  assumes "wf_grid g" "row < 9" "col < 9"
  shows "(checkPlacement g row col v = Inr False \<longleftrightarrow> conflicts g row col v) \<and>
         (checkPlacement g row col v = Inr True \<longleftrightarrow> \<not> conflicts g row col v) \<and>
         (checkPlacement2 g row col v = Inr False \<longleftrightarrow> conflicts g row col v) \<and>
         (checkPlacement2 g row col v = Inr True \<longleftrightarrow> \<not> conflicts g row col v)"
  using checkPlacement_wf [OF assms, of v] checkPlacement2_wf [OF assms, of v] by simp

theorem checkPlacement_false_iff_conflict_witness:
  "wf_grid twoTwos \<and> (0::nat) < 9 \<and> (1::nat) < 9 \<and>
   checkPlacement twoTwos 0 1 2 = Inr False \<and> conflicts twoTwos 0 1 2 \<and>
   checkPlacement2 twoTwos 0 1 3 = Inr True \<and> \<not> conflicts twoTwos 0 1 3"
proof -
  have wf: "wf_grid twoTwos"
    by code_simp
  have a: "checkPlacement twoTwos 0 1 2 = Inr False"
    by code_simp
  have b: "checkPlacement2 twoTwos 0 1 3 = Inr True"
    by code_simp
  show ?thesis
    using checkPlacement_false_iff_conflict [OF wf, of 0 1 2]
          checkPlacement_false_iff_conflict [OF wf, of 0 1 3] wf a b
    by simp
qed


definition allZeros :: grid where
  "allZeros = gridOf (replicate 9 (replicate 9 (Some 0)))"

section \<open>Backtracking gives the grid back\<close>



section \<open>A full grid counts as one solution\<close>

text \<open>
  C10. On a 9x9 grid with no empty cell \<open>countSolutions\<close> returns 1, whatever the limit,
  and \<open>hasUniqueSolution\<close> returns true: no constraint is checked. The instance is a grid
  of 81 zeros, which is not solved.
\<close>

theorem filled_grid_counts_as_one_solution:
  assumes "wf_grid g" "filled g"
  shows "countSolutions g limit = Inr (1, g) \<and> hasUniqueSolution g = Inr True"
  using findEmptyCell_filled [OF assms]
  by (simp add: countSolutions.simps hasUniqueSolution_def findSolutions.simps)

theorem filled_grid_counts_as_one_solution_witness:
  "wf_grid allZeros \<and> filled allZeros \<and> \<not> isSolvedGrid allZeros \<and>
   countSolutions allZeros 2 = Inr (1, allZeros) \<and> hasUniqueSolution allZeros = Inr True"
proof -
  have wf: "wf_grid allZeros"
    by code_simp
  have full: "filled allZeros"
    by code_simp
  have "checkPlacement allZeros 0 0 0 = Inr False"
    by code_simp
  then have "conflicts allZeros 0 0 0"
    using checkPlacement_wf [OF wf, of 0 0 0] by simp
  moreover have "valueAt allZeros 0 0 = Some 0"
    by code_simp
  ultimately have "\<not> consistent allZeros"
    unfolding consistent_def by (metis zero_less_numeral)
  then have "\<not> isSolvedGrid allZeros"
    by (simp add: isSolvedGrid_iff)
  then show ?thesis
    using filled_grid_counts_as_one_solution [OF wf full, of 2] wf full by simp
qed

text \<open>A solved grid, and the same grid with the colour of (0,1) written into (0,0).\<close>

definition solvedExample :: grid where
  "solvedExample = gridOf (map (map Some)
     [[0, 1, 2, 4, 3, 6, 5, 8, 7],
      [3, 4, 5, 1, 8, 7, 2, 0, 6],
      [6, 7, 8, 2, 5, 0, 1, 3, 4],
      [4, 5, 7, 0, 1, 2, 8, 6, 3],
      [8, 0, 6, 3, 4, 5, 7, 2, 1],
      [1, 2, 3, 6, 7, 8, 4, 5, 0],
      [5, 8, 4, 7, 6, 3, 0, 1, 2],
      [7, 6, 0, 8, 2, 1, 3, 4, 5],
      [2, 3, 1, 5, 0, 4, 6, 7, 8]])"

definition oneWrong :: grid where
  "oneWrong = gridOf (map (map Some)
     [[1, 1, 2, 4, 3, 6, 5, 8, 7],
      [3, 4, 5, 1, 8, 7, 2, 0, 6],
      [6, 7, 8, 2, 5, 0, 1, 3, 4],
      [4, 5, 7, 0, 1, 2, 8, 6, 3],
      [8, 0, 6, 3, 4, 5, 7, 2, 1],
      [1, 2, 3, 6, 7, 8, 4, 5, 0],
      [5, 8, 4, 7, 6, 3, 0, 1, 2],
      [7, 6, 0, 8, 2, 1, 3, 4, 5],
      [2, 3, 1, 5, 0, 4, 6, 7, 8]])"

lemma solvedExample_facts:
  "wf_grid solvedExample" "coloursInRange solvedExample" "isSolvedGrid solvedExample"
proof -
  show wf: "wf_grid solvedExample"
    by code_simp
  show col: "coloursInRange solvedExample"
    by code_simp
  have "checkWin solvedExample = Inr True"
    by code_simp
  then show "isSolvedGrid solvedExample"
    using checkWin_wf [OF wf col] by simp
qed

section \<open>Win check\<close>

text \<open>
  C2. The claim: \<open>checkWin\<close> is true exactly for the grids with no empty cell in which
  every row, column and box contains each colour once. The \<open>checkWin\<close> of the first
  module does this (\<open>checkWin_wf\<close>); the \<open>checkWin\<close> of the second module only looks for
  an empty cell. On a full grid with the same colour twice in row 0 the second
  returns true where the first returns false.
\<close>

theorem checkWin2_accepts_unsolved_grid:
  "checkWin2 oneWrong = Inr True \<and> checkWin oneWrong = Inr False"
  by code_simp

theorem checkWin2_accepts_unsolved_grid_witness:
  "wf_grid oneWrong \<and> coloursInRange oneWrong \<and> filled oneWrong \<and> \<not> isSolvedGrid oneWrong \<and>
   checkWin2 oneWrong = Inr True"
proof -
  have wf: "wf_grid oneWrong"
    by code_simp
  have col: "coloursInRange oneWrong"
    by code_simp
  have full: "filled oneWrong"
    by code_simp
  show ?thesis
    using checkWin2_accepts_unsolved_grid checkWin_wf [OF wf col] wf col full by simp
qed

text \<open>The first module's \<open>checkWin\<close>, as the claim states it.\<close>

theorem checkWin_true_iff_solved:
  assumes "wf_grid g" "coloursInRange g"
  shows "checkWin g = Inr True \<longleftrightarrow>
         filled g \<and>
         (\<forall>i<9. containsEachOnce g (rowUnit i) \<and> containsEachOnce g (colUnit i) \<and>
                 containsEachOnce g (boxUnit i))"
  using checkWin_wf [OF assms] by (simp add: isSolvedGrid_def)

theorem checkWin_true_iff_solved_witness:
  "wf_grid solvedExample \<and> coloursInRange solvedExample \<and> checkWin solvedExample = Inr True \<and>
   filled solvedExample \<and> containsEachOnce solvedExample (boxUnit 4)"
  using checkWin_true_iff_solved [OF solvedExample_facts(1,2)] solvedExample_facts
  by (simp add: isSolvedGrid_def)

text \<open>A puzzle with one empty cell, (0,0), in the solved grid above.\<close>

definition oneEmpty :: grid where
  "oneEmpty = gridOf
     ((None # map Some [1, 2, 4, 3, 6, 5, 8, 7]) #
      map (map Some)
       [[3, 4, 5, 1, 8, 7, 2, 0, 6],
        [6, 7, 8, 2, 5, 0, 1, 3, 4],
        [4, 5, 7, 0, 1, 2, 8, 6, 3],
        [8, 0, 6, 3, 4, 5, 7, 2, 1],
        [1, 2, 3, 6, 7, 8, 4, 5, 0],
        [5, 8, 4, 7, 6, 3, 0, 1, 2],
        [7, 6, 0, 8, 2, 1, 3, 4, 5],
        [2, 3, 1, 5, 0, 4, 6, 7, 8]])"

text \<open>An executable form of \<open>consistent\<close>, for the concrete grids.\<close>

definition consistentCheck :: "grid \<Rightarrow> bool" where
  "consistentCheck g =
     (\<forall>(r, c) \<in> set allCells.
        case valueAt g r c of
          None \<Rightarrow> True
        | Some v \<Rightarrow> v < 9 \<and> checkPlacement g r c v = Inr True)"

lemma consistentCheck_imp:
  assumes "wf_grid g" "consistentCheck g"
  shows "consistent g"
  unfolding consistent_def
proof (intro allI impI)
  fix r c v :: nat assume rc: "r < 9" "c < 9" and v: "valueAt g r c = Some v"
  have "(r, c) \<in> set allCells"
    using rc by (simp add: mem_allCells)
  then have "v < 9 \<and> checkPlacement g r c v = Inr True"
    using assms(2) v unfolding consistentCheck_def by fastforce
  then show "v < 9 \<and> \<not> conflicts g r c v"
    using checkPlacement_wf [OF assms(1) rc, of v] by simp
qed

section \<open>The solution counter\<close>

text \<open>
  C4. The claim: for every grid and every limit of at least 1, \<open>countSolutions\<close> returns
  the minimum of the number of completions and the limit. It fails on a grid whose
  filled cells already conflict: the grid of 81 zeros has no completion, and
  \<open>countSolutions\<close> returns 1 for it.
\<close>

theorem countSolutions_counts_conflicting_grid:
  "wf_grid allZeros \<and> card (completions allZeros) = 0 \<and>
   countSolutions allZeros 2 = Inr (1, allZeros)"
proof -
  have wf: "wf_grid allZeros"
    by code_simp
  have "checkPlacement allZeros 0 0 0 = Inr False"
    by code_simp
  then have conf: "conflicts allZeros 0 0 0"
    using checkPlacement_wf [OF wf, of 0 0 0] by simp
  have "completions allZeros = {}"
  proof (rule ccontr)
    assume "completions allZeros \<noteq> {}"
    then obtain s where s: "extendsTo allZeros s" "isSolvedGrid s"
      by (auto simp: completions_def)
    have "valueAt allZeros 0 0 = Some 0"
      by code_simp
    then have "valueAt s 0 0 = Some 0"
      using s(1) unfolding extendsTo_def by (metis option.distinct(1) zero_less_numeral)
    moreover have "valueAt s 0 0 \<noteq> Some 0"
      using solution_avoids_conflict [OF s(1) _ _ _ conf] s(2) by (simp add: isSolvedGrid_iff)
    ultimately show False
      by simp
  qed
  moreover have "countSolutions allZeros 2 = Inr (1, allZeros)"
    by code_simp
  ultimately show ?thesis
    using wf by simp
qed

text \<open>
  C4, amended. On a 9x9 grid whose filled cells hold colours 0 to 8, no two cells of a
  row, column or box holding the same one, \<open>countSolutions\<close> with a limit of at least 1
  returns the minimum of the number of completions and the limit. On every 9x9 grid
  the value it returns is at least 0 and at most the limit.
\<close>

theorem countSolutions_min_completions_limit:
  assumes "wf_grid g" "1 \<le> limit"
  shows "(consistent g \<longrightarrow>
            countSolutions g limit = Inr (min (int (card (completions g))) limit, g)) \<and>
         (\<exists>n. countSolutions g limit = Inr (n, g) \<and> 0 \<le> n \<and> n \<le> limit)"
  using countSolutions_counts(1) [OF assms(1) _ assms(2)] countSolutions_bounded(1) [OF assms]
  by blast

theorem countSolutions_min_completions_limit_witness:
  "wf_grid oneEmpty \<and> (1::int) \<le> 2 \<and> consistent oneEmpty \<and>
   countSolutions oneEmpty 2 = Inr (1, oneEmpty) \<and> card (completions oneEmpty) = 1"
proof -
  have wf: "wf_grid oneEmpty"
    by code_simp
  have "consistentCheck oneEmpty"
    by code_simp
  then have cons: "consistent oneEmpty"
    using wf by (simp add: consistentCheck_imp)
  have run: "countSolutions oneEmpty 2 = Inr (1, oneEmpty)"
    by code_simp
  have "min (int (card (completions oneEmpty))) 2 = 1"
    using countSolutions_min_completions_limit [OF wf, of 2] cons run by simp
  then have "card (completions oneEmpty) = 1"
    by linarith
  then show ?thesis
    using wf cons run by simp
qed

section \<open>The generator of the first module\<close>

text \<open>The number of cells marked fixed, beside \<open>emptyCount\<close>, the number of empty cells.\<close>

definition fixedCount :: "grid \<Rightarrow> nat" where
  "fixedCount g = sum_list (map (\<lambda>row. length (filter isFixed row)) g)"

text \<open>What the removal loop keeps true of the grid: it is a 9x9 grid without
  conflicts, its fixed cells are its filled cells, and the solution counter with limit
  2 returns 1 on it.\<close>

definition fixedAreFilled :: "grid \<Rightarrow> bool" where
  "fixedAreFilled g = (\<forall>(r, c) \<in> set allCells. fixedAt g r c = (valueAt g r c \<noteq> None))"

definition puzzleInv :: "grid \<Rightarrow> bool" where
  "puzzleInv g =
     (wf_grid g \<and> consistent g \<and> fixedAreFilled g \<and> countSolutions g 2 = Inr (1, g))"

lemma fixedAreFilled_iff:
  "fixedAreFilled g = (\<forall>r<9. \<forall>c<9. fixedAt g r c = (valueAt g r c \<noteq> None))"
proof
  assume "fixedAreFilled g"
  then show "\<forall>r<9. \<forall>c<9. fixedAt g r c = (valueAt g r c \<noteq> None)"
    unfolding fixedAreFilled_def using mem_allCells by blast
next
  assume "\<forall>r<9. \<forall>c<9. fixedAt g r c = (valueAt g r c \<noteq> None)"
  then show "fixedAreFilled g"
    unfolding fixedAreFilled_def using mem_allCells by blast
qed

lemma valueAt_createEmptyGrid:
  "r < 9 \<Longrightarrow> c < 9 \<Longrightarrow> valueAt createEmptyGrid r c = None \<and> \<not> fixedAt createEmptyGrid r c"
  by (simp add: createEmptyGrid_def valueAt_def fixedAt_def)

lemma consistent_createEmptyGrid: "consistent createEmptyGrid"
  by (simp add: consistent_def valueAt_createEmptyGrid)

lemma fixedAt_gridOf:
  assumes "wf_grid (gridOf rows)" "r < 9" "c < 9"
  shows "\<not> fixedAt (gridOf rows) r c"
proof -
  have r: "r < length rows"
    using assms(1,2) by (simp add: wf_grid_def gridOf_def)
  then have "length (gridOf rows ! r) = 9"
    using assms(1) by (simp add: wf_grid_def gridOf_def)
  then have "c < length (rows ! r)"
    using assms(3) r by (simp add: gridOf_def)
  then show ?thesis
    using r by (simp add: gridOf_def fixedAt_def)
qed

lemma solvedExample_completes_empty:
  "extendsTo createEmptyGrid solvedExample \<and> isSolvedGrid solvedExample"
proof -
  have "\<not> fixedAt solvedExample r c" if "r < 9" "c < 9" for r c
    using solvedExample_facts(1) that unfolding solvedExample_def by (rule fixedAt_gridOf)
  then show ?thesis
    using solvedExample_facts(1,3) wf_createEmptyGrid
    by (simp add: extendsTo_def valueAt_createEmptyGrid)
qed

lemma consistent_clear:
  assumes "consistent g" "setValue g r c None = Inr g1"
  shows "consistent g1"
  unfolding consistent_def
proof (intro allI impI)
  fix r' c' v :: nat
  assume rc: "r' < 9" "c' < 9" and val: "valueAt g1 r' c' = Some v"
  note va = valueAt_setValue [OF assms(2)]
  have old: "valueAt g r' c' = Some v"
    using val by (auto simp: va split: if_splits)
  have "conflicts g r' c' v" if cf: "conflicts g1 r' c' v"
  proof -
    obtain r2 c2 where o: "r2 < 9" "c2 < 9" "(r2, c2) \<noteq> (r', c')" "sameUnit r2 c2 r' c'"
        "valueAt g1 r2 c2 = Some v"
      using cf unfolding conflicts_def by blast
    have "valueAt g r2 c2 = Some v"
      using o(5) by (auto simp: va split: if_splits)
    then show ?thesis
      unfolding conflicts_def using o by blast
  qed
  then show "v < 9 \<and> \<not> conflicts g1 r' c' v"
    using assms(1) rc old unfolding consistent_def by blast
qed

lemma consistent_same_values:
  assumes "consistent g" "\<And>r c. valueAt h r c = valueAt g r c"
  shows "consistent h"
  using assms(1) unfolding consistent_def conflicts_def assms(2) .

lemma emptyCount_setValue_None:
  assumes "setValue g r c None = Inr g1"
  shows "emptyCount g1 \<le> emptyCount g + 1"
  using emptyCount_update [of r g c "(g ! r ! c)\<lparr>cell_value := None\<rparr>"] setValue_Inr [OF assms]
  by (simp split: if_splits)

lemma emptyCount_setFixed:
  assumes "setFixed g r c b = Inr g1"
  shows "emptyCount g1 = emptyCount g"
  using emptyCount_update [of r g c "(g ! r ! c)\<lparr>isFixed := b\<rparr>"] assms
  by (auto simp: setFixed_def split: if_splits)

lemma emptyCount_filled:
  assumes "wf_grid g" "filled g"
  shows "emptyCount g = 0"
proof -
  have "filter (\<lambda>cl. cell_value cl = None) row = []" if row: "row \<in> set g" for row
  proof -
    obtain r where r: "r < length g" "g ! r = row"
      using row by (auto simp: in_set_conv_nth)
    have "cell_value cl \<noteq> None" if cl: "cl \<in> set row" for cl
    proof -
      obtain c where c: "c < length row" "row ! c = cl"
        using cl by (auto simp: in_set_conv_nth)
      have "r < 9" "c < 9"
        using r c assms(1) row by (simp_all add: wf_grid_def)
      then show ?thesis
        using assms(2) r(2) c(2) unfolding filled_iff valueAt_def by blast
    qed
    then show ?thesis
      by (simp add: filter_empty_conv)
  qed
  then show ?thesis
    by (simp add: emptyCount_def)
qed

lemma setFixedCells_wf:
  "wf_grid g \<Longrightarrow> \<forall>(r, c) \<in> set ps. r < 9 \<and> c < 9 \<Longrightarrow>
   \<exists>g1. setFixedCells g ps b = Inr g1 \<and> wf_grid g1 \<and>
     (\<forall>r c. valueAt g1 r c = valueAt g r c) \<and>
     (\<forall>r c. fixedAt g1 r c = (if (r, c) \<in> set ps then b else fixedAt g r c))"
proof (induction ps arbitrary: g)
  case Nil
  then show ?case by simp
next
  case (Cons p ps)
  obtain i j where p: "p = (i, j)"
    by (cases p)
  have ij: "i < 9" "j < 9"
    using Cons.prems(2) p by simp_all
  obtain g0 where g0: "setFixed g i j b = Inr g0"
    using setFixed_wf [OF Cons.prems(1) ij] by blast
  have wf0: "wf_grid g0"
    using Cons.prems(1) g0 by (rule wf_setFixed)
  have "\<forall>(r, c) \<in> set ps. r < 9 \<and> c < 9"
    using Cons.prems(2) by simp
  from Cons.IH [OF wf0 this] obtain g1 where g1: "setFixedCells g0 ps b = Inr g1" "wf_grid g1"
      "\<forall>r c. valueAt g1 r c = valueAt g0 r c"
      "\<forall>r c. fixedAt g1 r c = (if (r, c) \<in> set ps then b else fixedAt g0 r c)"
    by blast
  show ?case
    using g0 g1 p by (auto simp: valueAt_setFixed [OF g0] fixedAt_setFixed [OF g0])
qed

lemma restore_cell:
  assumes wf: "wf_grid g" and rc: "row < 9" "col < 9"
    and fixed: "fixedAt g row col"
    and s1: "setValue g row col None = Inr g1" and s2: "setFixed g1 row col False = Inr g2"
    and s3: "setValue g2 row col (valueAt g row col) = Inr g4"
    and s4: "setFixed g4 row col True = Inr g5"
  shows "g5 = g"
proof (rule grid_eqI)
  show "wf_grid g5"
    using wf s1 s2 s3 s4 by (meson wf_setValue wf_setFixed)
  show "wf_grid g"
    by (rule wf)
  fix r c :: nat assume "r < 9" "c < 9"
  show "valueAt g5 r c = valueAt g r c \<and> fixedAt g5 r c = fixedAt g r c"
    using fixed
    by (auto simp: valueAt_setFixed [OF s4] valueAt_setValue [OF s3] valueAt_setFixed [OF s2]
        valueAt_setValue [OF s1] fixedAt_setFixed [OF s4] fixedAt_setValue [OF s3]
        fixedAt_setFixed [OF s2] fixedAt_setValue [OF s1])
qed

lemma untouched_cell:
  assumes wf: "wf_grid g" and rc: "row < 9" "col < 9"
    and emp: "valueAt g row col = None" "\<not> fixedAt g row col"
    and s1: "setValue g row col None = Inr g1" and s2: "setFixed g1 row col False = Inr g2"
  shows "g2 = g"
proof (rule grid_eqI)
  show "wf_grid g2"
    using wf s1 s2 by (meson wf_setValue wf_setFixed)
  show "wf_grid g"
    by (rule wf)
  fix r c :: nat assume "r < 9" "c < 9"
  show "valueAt g2 r c = valueAt g r c \<and> fixedAt g2 r c = fixedAt g r c"
    using emp
    by (auto simp: valueAt_setFixed [OF s2] valueAt_setValue [OF s1]
        fixedAt_setFixed [OF s2] fixedAt_setValue [OF s1])
qed

lemma removeCells_inv:
  "puzzleInv g \<Longrightarrow> set positions \<subseteq> {..<81} \<Longrightarrow>
   \<exists>g'. removeCells g positions removed target = Inr g' \<and> puzzleInv g' \<and>
        emptyCount g' \<le> emptyCount g + (target - removed)"
proof (induction positions arbitrary: g removed)
  case Nil
  then show ?case by simp
next
  case (Cons pos rest)
  note inv = Cons.prems(1)
  have wf: "wf_grid g" and cons: "consistent g" and ff: "fixedAreFilled g"
    and one: "countSolutions g 2 = Inr (1, g)"
    using inv by (simp_all add: puzzleInv_def)
  have rest: "set rest \<subseteq> {..<81}" and pos: "pos < 81"
    using Cons.prems(2) by simp_all
  show ?case
  proof (cases "target \<le> removed")
    case True
    then show ?thesis
      using inv by simp
  next
    case False
    define row where "row = pos div 9"
    define col where "col = pos mod 9"
    have rc: "row < 9" "col < 9"
      using pos by (simp_all add: row_def col_def div_less_iff_less_mult)
    have cl: "cellAt g row col = Inr (g ! row ! col)"
      using wf rc by (rule cellAt_wf)
    obtain g1 where g1: "setValue g row col None = Inr g1"
      using setValue_wf [OF wf rc] by blast
    have wf1: "wf_grid g1"
      using wf g1 by (rule wf_setValue)
    obtain g2 where g2: "setFixed g1 row col False = Inr g2"
      using setFixed_wf [OF wf1 rc] by blast
    have wf2: "wf_grid g2"
      using wf1 g2 by (rule wf_setFixed)
    obtain n where n: "countSolutions g2 2 = Inr (n, g2)"
      using countSolutions_total(1) [OF wf2] by blast
    show ?thesis
    proof (cases "n = 1")
      case True
      have "consistent g1"
        using cons g1 by (rule consistent_clear)
      then have cons2: "consistent g2"
        by (rule consistent_same_values) (simp add: valueAt_setFixed [OF g2])
      have "fixedAreFilled g2"
        using ff unfolding fixedAreFilled_iff
        by (auto simp: valueAt_setFixed [OF g2] valueAt_setValue [OF g1]
            fixedAt_setFixed [OF g2] fixedAt_setValue [OF g1])
      then have inv2: "puzzleInv g2"
        using wf2 cons2 n True by (simp add: puzzleInv_def)
      have ec: "emptyCount g2 \<le> emptyCount g + 1"
        using emptyCount_setValue_None [OF g1] emptyCount_setFixed [OF g2] by simp
      from Cons.IH [OF inv2 rest, of "removed + 1"]
      obtain g' where g': "removeCells g2 rest (removed + 1) target = Inr g'" "puzzleInv g'"
          "emptyCount g' \<le> emptyCount g2 + (target - (removed + 1))"
        by blast
      have "emptyCount g' \<le> emptyCount g + (target - removed)"
        using g'(3) ec False by linarith
      then show ?thesis
        using False cl g1 g2 n True g'(1,2)
        by (simp add: row_def [symmetric] col_def [symmetric])
    next
      case differs: False
      have fixed: "fixedAt g row col"
      proof (rule ccontr)
        assume nf: "\<not> fixedAt g row col"
        then have "valueAt g row col = None"
          using ff rc unfolding fixedAreFilled_iff by blast
        then have "g2 = g"
          using untouched_cell [OF wf rc _ nf g1 g2] by simp
        then show False
          using n one differs by simp
      qed
      obtain g4 where g4: "setValue g2 row col (cell_value (g ! row ! col)) = Inr g4"
        using setValue_wf [OF wf2 rc] by blast
      have wf4: "wf_grid g4"
        using wf2 g4 by (rule wf_setValue)
      obtain g5 where g5: "setFixed g4 row col True = Inr g5"
        using setFixed_wf [OF wf4 rc] by blast
      have "g5 = g"
        using restore_cell [OF wf rc fixed g1 g2 _ g5] g4 by (simp add: valueAt_def)
      then have g5': "setFixed g4 row col True = Inr g"
        using g5 by simp
      from Cons.IH [OF inv rest, of removed]
      obtain g' where g': "removeCells g rest removed target = Inr g'" "puzzleInv g'"
          "emptyCount g' \<le> emptyCount g + (target - removed)"
        by blast
      then show ?thesis
        using False cl g1 g2 n differs g4 g5'
        by (simp add: row_def [symmetric] col_def [symmetric])
    qed
  qed
qed

lemma generatePuzzle_spec:
  "\<exists>g. generatePuzzle d rnd = Inr g \<and> puzzleInv g \<and> emptyCount g \<le> cellsToRemove d"
proof -
  obtain ok g rnd1 where gen: "generateSolution createEmptyGrid rnd = Inr (ok, g, rnd1)"
      "searchPost createEmptyGrid ok g" "ok"
    using generateSolution_spec(1) [OF wf_createEmptyGrid, of rnd] solvedExample_completes_empty
    by blast
  have full: "filled g" and ext: "extendsTo createEmptyGrid g" and cons: "consistent g"
    using gen(2,3) consistent_createEmptyGrid by (simp_all add: searchPost_def)
  have wf: "wf_grid g"
    using ext by (simp add: extendsTo_def)
  have "\<forall>(r, c) \<in> set allCells. r < 9 \<and> c < 9"
    using mem_allCells by blast
  from setFixedCells_wf [OF wf this, of True]
  obtain g1 where g1: "setFixedCells g allCells True = Inr g1" "wf_grid g1"
      "\<forall>r c. valueAt g1 r c = valueAt g r c"
      "\<forall>r c. fixedAt g1 r c = (if (r, c) \<in> set allCells then True else fixedAt g r c)"
    by blast
  have full1: "filled g1"
    using full g1(3) by (simp add: filled_def)
  have "consistent g1"
    using cons by (rule consistent_same_values) (simp add: g1(3))
  moreover have "fixedAreFilled g1"
    using full1 g1(4) by (auto simp: fixedAreFilled_def filled_def)
  moreover have "countSolutions g1 2 = Inr (1, g1)"
    using findEmptyCell_filled [OF g1(2) full1] by (simp add: countSolutions.simps)
  ultimately have inv: "puzzleInv g1"
    using g1(2) by (simp add: puzzleInv_def)
  obtain positions rnd2 where sh: "shuffle [0..<81] rnd1 = (positions, rnd2)"
    by (cases "shuffle [0..<81] rnd1")
  have "set positions = set [0..<81]"
    using set_shuffle [of "[0..<81]" rnd1] sh by simp
  then have "set positions \<subseteq> {..<81}"
    by (simp only: set_upt atLeast0LessThan)
  from removeCells_inv [OF inv this, of 0 "cellsToRemove d"]
  obtain g' where "removeCells g1 positions 0 (cellsToRemove d) = Inr g'" "puzzleInv g'"
      "emptyCount g' \<le> emptyCount g1 + (cellsToRemove d - 0)"
    by blast
  then show ?thesis
    using gen(1) g1(1) sh emptyCount_filled [OF g1(2) full1]
    by (simp add: generatePuzzle_def)
qed

section \<open>The generator of the second module\<close>

lemma hasUniqueSolution_total: "wf_grid g \<Longrightarrow> \<exists>b. hasUniqueSolution g = Inr b"
  using findSolutions_total(1) [of g "[]"] by (auto simp: hasUniqueSolution_def)

lemma setValues_wf:
  "wf_grid g \<Longrightarrow> \<forall>((r, c), v) \<in> set cvs. r < 9 \<and> c < 9 \<Longrightarrow>
   \<exists>g1. setValues g cvs = Inr g1 \<and> wf_grid g1 \<and> (\<forall>r c. fixedAt g1 r c = fixedAt g r c)"
proof (induction cvs arbitrary: g)
  case Nil
  then show ?case by simp
next
  case (Cons p cvs)
  obtain i j v where p: "p = ((i, j), v)"
    by (metis surj_pair)
  have ij: "i < 9" "j < 9"
    using Cons.prems(2) p by simp_all
  obtain g0 where g0: "setValue g i j (Some v) = Inr g0"
    using setValue_wf [OF Cons.prems(1) ij] by blast
  have wf0: "wf_grid g0"
    using Cons.prems(1) g0 by (rule wf_setValue)
  have "\<forall>((r, c), v) \<in> set cvs. r < 9 \<and> c < 9"
    using Cons.prems(2) by simp
  from Cons.IH [OF wf0 this] obtain g1 where "setValues g0 cvs = Inr g1" "wf_grid g1"
      "\<forall>r c. fixedAt g1 r c = fixedAt g0 r c"
    by blast
  then show ?case
    using g0 p by (simp add: fixedAt_setValue [OF g0])
qed

lemma fillBox_wf:
  assumes "wf_grid g" "i \<le> 6"
  shows "\<exists>g1 rnd1. fillBox g i i rnd = Inr (g1, rnd1) \<and> wf_grid g1 \<and>
           (\<forall>r c. fixedAt g1 r c = fixedAt g r c)"
proof -
  obtain numbers rnd1 where sh: "shuffle [0..<9] rnd = (numbers, rnd1)"
    by (cases "shuffle [0..<9] rnd")
  have "\<forall>((r, c), v) \<in> set (zip (boxCells i i) numbers). r < 9 \<and> c < 9"
  proof (clarify, rule conjI)
    fix r c v assume "((r, c), v) \<in> set (zip (boxCells i i) numbers)"
    then have "(r, c) \<in> set (boxCells i i)"
      by (rule set_zip_leftD)
    then have "r < i + 3 \<and> c < i + 3"
      by (simp add: mem_boxCells)
    then show "r < 9" "c < 9"
      using assms(2) by simp_all
  qed
  from setValues_wf [OF assms(1) this] show ?thesis
    using sh by (auto simp: fillBox_def)
qed

lemma fillBoxes_wf:
  "wf_grid g \<Longrightarrow> \<forall>i \<in> set boxes. i \<le> 6 \<Longrightarrow>
   \<exists>g1 rnd1. fillBoxes g boxes rnd = Inr (g1, rnd1) \<and> wf_grid g1 \<and>
     (\<forall>r c. fixedAt g1 r c = fixedAt g r c)"
proof (induction boxes arbitrary: g rnd)
  case Nil
  then show ?case by simp
next
  case (Cons i boxes)
  have "i \<le> 6"
    using Cons.prems(2) by simp
  from fillBox_wf [OF Cons.prems(1) this, of rnd]
  obtain g0 rnd0 where g0: "fillBox g i i rnd = Inr (g0, rnd0)" "wf_grid g0"
      "\<forall>r c. fixedAt g0 r c = fixedAt g r c"
    by blast
  have "\<forall>i \<in> set boxes. i \<le> 6"
    using Cons.prems(2) by simp
  from Cons.IH [OF g0(2) this, of rnd0] show ?case
    using g0 by auto
qed

lemma filledGrid2_spec:
  "\<exists>ok g2 rnd1. filledGrid2 rnd = Inr ((ok, g2), rnd1) \<and> wf_grid g2 \<and>
     (\<forall>r<9. \<forall>c<9. \<not> fixedAt g2 r c) \<and> (ok \<longrightarrow> filled g2)"
proof -
  have "\<forall>i \<in> set [0, 3, 6::nat]. i \<le> 6"
    by simp
  from fillBoxes_wf [OF wf_createEmptyGrid this, of rnd]
  obtain g1 rnd1 where g1: "fillBoxes createEmptyGrid [0, 3, 6] rnd = Inr (g1, rnd1)" "wf_grid g1"
      "\<forall>r c. fixedAt g1 r c = fixedAt createEmptyGrid r c"
    by blast
  obtain ok g2 where g2: "solveGridWith checkPlacement2 g1 = Inr (ok, g2)" "searchPost g1 ok g2"
    using solveGridWith_spec(1) [OF placementCheck_checkPlacement2 g1(2)] by blast
  have wf2: "wf_grid g2"
    using g2(2) g1(2) by (cases ok) (simp_all add: searchPost_def extendsTo_def)
  have "\<not> fixedAt g2 r c" if "r < 9" "c < 9" for r c
    using g2(2) g1(3) that valueAt_createEmptyGrid [OF that]
    by (cases ok) (simp_all add: searchPost_def extendsTo_def)
  moreover have "ok \<longrightarrow> filled g2"
    using g2(2) by (simp add: searchPost_def)
  ultimately show ?thesis
    using g1(1) g2(1) wf2 by (simp add: filledGrid2_def solveGrid_def)
qed

lemma removeCells2_spec:
  "wf_grid g \<Longrightarrow> \<forall>(r, c) \<in> set ps. r < 9 \<and> c < 9 \<Longrightarrow>
   \<exists>g'. removeCells2 g ps = Inr g' \<and> wf_grid g' \<and>
     emptyCount g' \<le> emptyCount g + length ps \<and> (\<forall>r c. fixedAt g' r c = fixedAt g r c)"
proof (induction ps arbitrary: g)
  case Nil
  then show ?case by simp
next
  case (Cons p ps)
  note wf = Cons.prems(1)
  obtain row col where p: "p = (row, col)"
    by (cases p)
  have rc: "row < 9" "col < 9"
    using Cons.prems(2) p by simp_all
  have rest: "\<forall>(r, c) \<in> set ps. r < 9 \<and> c < 9"
    using Cons.prems(2) by simp
  have cl: "cellAt g row col = Inr (g ! row ! col)"
    using wf rc by (rule cellAt_wf)
  obtain g1 where g1: "setValue g row col None = Inr g1"
    using setValue_wf [OF wf rc] by blast
  have wf1: "wf_grid g1"
    using wf g1 by (rule wf_setValue)
  obtain unique where u: "hasUniqueSolution g1 = Inr unique"
    using hasUniqueSolution_total [OF wf1] by blast
  show ?case
  proof (cases unique)
    case True
    from Cons.IH [OF wf1 rest] obtain g' where g': "removeCells2 g1 ps = Inr g'" "wf_grid g'"
        "emptyCount g' \<le> emptyCount g1 + length ps" "\<forall>r c. fixedAt g' r c = fixedAt g1 r c"
      by blast
    have "emptyCount g' \<le> emptyCount g + length (p # ps)"
      using g'(3) emptyCount_setValue_None [OF g1] by simp
    then show ?thesis
      using p cl g1 u True g'(1,2,4) by (simp add: fixedAt_setValue [OF g1])
  next
    case False
    have "setValue g1 row col (cell_value (g ! row ! col)) = Inr g"
      using setValue_twice [OF g1, of "cell_value (g ! row ! col)"] setValue_Inr [OF g1]
      by (simp add: setValue_same)
    moreover from Cons.IH [OF wf rest] obtain g' where "removeCells2 g ps = Inr g'" "wf_grid g'"
        "emptyCount g' \<le> emptyCount g + length ps" "\<forall>r c. fixedAt g' r c = fixedAt g r c"
      by blast
    ultimately show ?thesis
      using p cl g1 u False by auto
  qed
qed

lemma fixFilledCells_spec:
  "wf_grid g \<Longrightarrow> \<forall>(r, c) \<in> set ps. r < 9 \<and> c < 9 \<Longrightarrow>
   \<exists>g'. fixFilledCells g ps = Inr g' \<and> wf_grid g' \<and> emptyCount g' = emptyCount g \<and>
     (\<forall>r c. valueAt g' r c = valueAt g r c) \<and>
     (\<forall>r c. fixedAt g' r c =
        (if (r, c) \<in> set ps \<and> valueAt g r c \<noteq> None then True else fixedAt g r c))"
proof (induction ps arbitrary: g)
  case Nil
  then show ?case by simp
next
  case (Cons p ps)
  note wf = Cons.prems(1)
  obtain row col where p: "p = (row, col)"
    by (cases p)
  have rc: "row < 9" "col < 9"
    using Cons.prems(2) p by simp_all
  have rest: "\<forall>(r, c) \<in> set ps. r < 9 \<and> c < 9"
    using Cons.prems(2) by simp
  have cl: "cellAt g row col = Inr (g ! row ! col)"
    using wf rc by (rule cellAt_wf)
  show ?case
  proof (cases "valueAt g row col = None")
    case True
    from Cons.IH [OF wf rest] obtain g' where "fixFilledCells g ps = Inr g'" "wf_grid g'"
        "emptyCount g' = emptyCount g" "\<forall>r c. valueAt g' r c = valueAt g r c"
        "\<forall>r c. fixedAt g' r c =
           (if (r, c) \<in> set ps \<and> valueAt g r c \<noteq> None then True else fixedAt g r c)"
      by blast
    then show ?thesis
      using p cl True by (auto simp: valueAt_def)
  next
    case False
    obtain g1 where g1: "setFixed g row col True = Inr g1"
      using setFixed_wf [OF wf rc] by blast
    have wf1: "wf_grid g1"
      using wf g1 by (rule wf_setFixed)
    from Cons.IH [OF wf1 rest] obtain g' where "fixFilledCells g1 ps = Inr g'" "wf_grid g'"
        "emptyCount g' = emptyCount g1" "\<forall>r c. valueAt g' r c = valueAt g1 r c"
        "\<forall>r c. fixedAt g' r c =
           (if (r, c) \<in> set ps \<and> valueAt g1 r c \<noteq> None then True else fixedAt g1 r c)"
      by blast
    then show ?thesis
      using p cl False g1 emptyCount_setFixed [OF g1]
      by (auto simp: valueAt_def [of g row col] valueAt_setFixed [OF g1] fixedAt_setFixed [OF g1])
  qed
qed

lemma generatePuzzle2_spec:
  "\<exists>ok g2 rnd1 g. filledGrid2 rnd = Inr ((ok, g2), rnd1) \<and> generatePuzzle2 d rnd = Inr g \<and>
     wf_grid g \<and> fixedAreFilled g \<and> (ok \<longrightarrow> emptyCount g \<le> cellsToRemove d)"
proof -
  obtain ok g2 rnd1 where g2: "filledGrid2 rnd = Inr ((ok, g2), rnd1)" "wf_grid g2"
      "\<forall>r<9. \<forall>c<9. \<not> fixedAt g2 r c" "ok \<longrightarrow> filled g2"
    using filledGrid2_spec [of rnd] by blast
  obtain positions rnd2 where sh: "shuffle allCells rnd1 = (positions, rnd2)"
    by (cases "shuffle allCells rnd1")
  have "set positions = set allCells"
    using set_shuffle [of allCells rnd1] sh by simp
  then have "set (take (cellsToRemove d) positions) \<subseteq> set allCells"
    using set_take_subset [of "cellsToRemove d" positions] by simp
  then have "\<forall>(r, c) \<in> set (take (cellsToRemove d) positions). r < 9 \<and> c < 9"
    using mem_allCells by blast
  from removeCells2_spec [OF g2(2) this]
  obtain g3 where g3: "removeCells2 g2 (take (cellsToRemove d) positions) = Inr g3" "wf_grid g3"
      "emptyCount g3 \<le> emptyCount g2 + length (take (cellsToRemove d) positions)"
      "\<forall>r c. fixedAt g3 r c = fixedAt g2 r c"
    by blast
  have "\<forall>(r, c) \<in> set allCells. r < 9 \<and> c < 9"
    using mem_allCells by blast
  from fixFilledCells_spec [OF g3(2) this]
  obtain g where g: "fixFilledCells g3 allCells = Inr g" "wf_grid g" "emptyCount g = emptyCount g3"
      "\<forall>r c. valueAt g r c = valueAt g3 r c"
      "\<forall>r c. fixedAt g r c =
         (if (r, c) \<in> set allCells \<and> valueAt g3 r c \<noteq> None then True else fixedAt g3 r c)"
    by blast
  have "fixedAreFilled g"
    unfolding fixedAreFilled_iff using g(4,5) g3(4) g2(3) by (simp add: mem_allCells)
  moreover have "emptyCount g \<le> cellsToRemove d" if ok
    using g(3) g3(3) emptyCount_filled [OF g2(2)] g2(4) that by simp
  ultimately show ?thesis
    using g2(1) sh g3(1) g(1,2) by (simp add: generatePuzzle2_def)
qed

section \<open>A run of the second module's generator\<close>

text \<open>A random source given by its first draws: 24 for the three diagonal boxes, 80 for
  the shuffle of the 81 positions. The boxes come out as 1 8 5 / 4 0 6 / 2 7 3,
  5 1 0 / 7 2 6 / 3 8 4 and 5 4 2 / 6 7 3 / 8 0 1, \<open>solveGrid\<close> completes them to
  \<open>diagonalSolved\<close>, and the shuffled positions start with (0,3), (0,6), (2,3), (2,6),
  where \<open>diagonalSolved\<close> holds 0 4 / 4 0.\<close>

definition exampleDraws :: "nat list" where
  "exampleDraws =
     [3, 7, 2, 2, 0, 0, 2, 0, 4, 4, 3, 3, 2, 2, 0, 1, 1, 0, 1, 3, 0, 1, 2, 0,
      80, 79, 78, 77, 76, 75, 74, 73, 72, 71, 70, 69, 68, 67, 66, 65, 64, 63, 62, 61,
      60, 59, 58, 57, 56, 55, 54, 53, 52, 51, 50, 49, 48, 47, 46, 45, 44, 43, 42, 41,
      40, 39, 38, 37, 36, 35, 34, 33, 32, 31, 30, 29, 28, 27, 26, 25, 23, 22, 20, 19,
      18, 17, 16, 15, 14, 13, 12, 11, 10, 9, 8, 7, 5, 4, 2, 1, 0, 1, 0, 0]"

definition exampleRng :: rng where
  "exampleRng k = (if k < length exampleDraws then exampleDraws ! k else 0)"

definition diagonalSolved :: grid where
  "diagonalSolved = gridOf (map (map Some)
     [[1, 8, 5, 0, 3, 2, 4, 6, 7],
      [4, 0, 6, 1, 5, 7, 2, 3, 8],
      [2, 7, 3, 4, 6, 8, 0, 1, 5],
      [3, 2, 4, 5, 1, 0, 7, 8, 6],
      [0, 1, 8, 7, 2, 6, 3, 5, 4],
      [5, 6, 7, 3, 8, 4, 1, 2, 0],
      [6, 3, 0, 8, 7, 1, 5, 4, 2],
      [8, 4, 1, 2, 0, 5, 6, 7, 3],
      [7, 5, 2, 6, 4, 3, 8, 0, 1]])"

lemma shuffleLoop_rng: "snd (shuffleLoop xs n rnd) = (\<lambda>k. rnd (k + n))"
  by (induction n arbitrary: xs rnd) (simp_all add: randomIndex_def)

lemma fillBox_rng: "fillBox g i j rnd = Inr (g1, rnd1) \<Longrightarrow> rnd1 = (\<lambda>k. rnd (k + 8))"
  using shuffleLoop_rng [of "[0..<9]" 8 rnd]
  by (auto simp: fillBox_def shuffle_def split: prod.splits sum.splits)

lemma filledGrid2_rng:
  assumes "filledGrid2 rnd = Inr (res, rnd1)"
  shows "rnd1 = (\<lambda>k. rnd (k + 24))"
proof -
  obtain ga ra gb rb gc where a: "fillBox createEmptyGrid 0 0 rnd = Inr (ga, ra)"
      and b: "fillBox ga 3 3 ra = Inr (gb, rb)" and c: "fillBox gb 6 6 rb = Inr (gc, rnd1)"
    using assms by (auto simp: filledGrid2_def split: sum.splits)
  show ?thesis
    unfolding fillBox_rng [OF c] fillBox_rng [OF b] fillBox_rng [OF a]
    by (simp add: add.assoc)
qed

lemma example_fill: "fst (projr (filledGrid2 exampleRng)) = (True, diagonalSolved)"
  by code_simp

lemma example_positions:
  "take 4 (fst (shuffle allCells (\<lambda>k. exampleRng (k + 24)))) = [(0, 3), (0, 6), (2, 3), (2, 6)]"
  by code_simp

lemma example_removals:
  "emptyCount (projr (removeCells2 diagonalSolved [(0, 3), (0, 6), (2, 3), (2, 6)])) = 3"
  by code_simp

lemma removeCells2_append:
  "removeCells2 g (ps @ qs) =
     (case removeCells2 g ps of Inl e \<Rightarrow> Inl e | Inr g1 \<Rightarrow> removeCells2 g1 qs)"
  by (induction g ps rule: removeCells2.induct) (auto split: sum.splits)

lemma fixed_plus_empty:
  assumes "wf_grid g" "fixedAreFilled g"
  shows "fixedCount g + emptyCount g = 81"
proof -
  let ?f = "\<lambda>row. length (filter isFixed row)"
  let ?e = "\<lambda>row. length (filter (\<lambda>cl. cell_value cl = None) row)"
  have "?f row + ?e row = 9" if row: "row \<in> set g" for row
  proof -
    obtain r where r: "r < length g" "g ! r = row"
      using row by (auto simp: in_set_conv_nth)
    have "isFixed cl = (\<not> cell_value cl = None)" if cl: "cl \<in> set row" for cl
    proof -
      obtain c where c: "c < length row" "row ! c = cl"
        using cl by (auto simp: in_set_conv_nth)
      have "r < 9" "c < 9"
        using r c assms(1) row by (simp_all add: wf_grid_def)
      then show ?thesis
        using assms(2) r(2) c(2) unfolding fixedAreFilled_iff valueAt_def fixedAt_def by blast
    qed
    then have "filter isFixed row = filter (\<lambda>cl. \<not> cell_value cl = None) row"
      by (intro filter_cong) simp_all
    then have "?f row + ?e row = length row"
      using sum_length_filter_compl [of "\<lambda>cl. cell_value cl = None" row] by simp
    then show ?thesis
      using assms(1) row by (simp add: wf_grid_def)
  qed
  then have eq: "map (\<lambda>row. ?f row + ?e row) g = map (\<lambda>row. 9) g"
    by (intro map_cong) simp_all
  have "sum_list (map (\<lambda>row. ?f row + ?e row) g) = sum_list (map (\<lambda>row. 9) g)"
    by (simp only: eq)
  also have "\<dots> = length g * 9"
    by (simp add: sum_list_triv)
  finally have "sum_list (map ?f g) + sum_list (map ?e g) = 81"
    using assms(1) by (simp add: sum_list_addf wf_grid_def)
  then show ?thesis
    by (simp add: fixedCount_def emptyCount_def)
qed

lemma example_run:
  "\<exists>g. generatePuzzle2 easy exampleRng = Inr g \<and> emptyCount g \<le> 39 \<and> 42 \<le> fixedCount g"
proof -
  let ?cells = "[(0, 3), (0, 6), (2, 3), (2, 6)] :: (nat \<times> nat) list"
  obtain ok g2 rnd1 g where run: "filledGrid2 exampleRng = Inr ((ok, g2), rnd1)"
      "generatePuzzle2 easy exampleRng = Inr g" "wf_grid g" "fixedAreFilled g"
    using generatePuzzle2_spec [of exampleRng easy] by blast
  have g2: "ok" "g2 = diagonalSolved"
    using example_fill run(1) by simp_all
  have rnd1: "rnd1 = (\<lambda>k. exampleRng (k + 24))"
    using run(1) by (rule filledGrid2_rng)
  obtain positions rnd2 where sh: "shuffle allCells rnd1 = (positions, rnd2)"
    by (cases "shuffle allCells rnd1")
  have first: "take 4 positions = ?cells"
    using example_positions sh rnd1 by simp
  have "set positions = set allCells"
    using set_shuffle [of allCells rnd1] sh by simp
  then have inrange: "\<forall>(r, c) \<in> set positions. r < 9 \<and> c < 9"
    using mem_allCells by blast
  define rest where "rest = drop 4 (take 40 positions)"
  have split: "take 40 positions = ?cells @ rest"
    using first append_take_drop_id [of 4 "take 40 positions"] by (simp add: rest_def min_def)
  have len: "length rest \<le> 36"
    by (simp add: rest_def)
  have "set rest \<subseteq> set positions"
    unfolding rest_def by (meson set_drop_subset set_take_subset subset_trans)
  then have rest_range: "\<forall>(r, c) \<in> set rest. r < 9 \<and> c < 9"
    using inrange by blast
  have wf2: "wf_grid diagonalSolved"
    by code_simp
  have "\<forall>(r, c) \<in> set ?cells. r < 9 \<and> c < 9"
    by simp
  from removeCells2_spec [OF wf2 this]
  obtain ga where ga: "removeCells2 diagonalSolved ?cells = Inr ga" "wf_grid ga"
    by blast
  have three: "emptyCount ga = 3"
    using example_removals ga(1) by simp
  from removeCells2_spec [OF ga(2) rest_range]
  obtain g3 where g3: "removeCells2 ga rest = Inr g3" "wf_grid g3"
      "emptyCount g3 \<le> emptyCount ga + length rest"
    by blast
  have "removeCells2 diagonalSolved (?cells @ rest) = Inr g3"
    by (simp only: removeCells2_append ga(1) g3(1) sum.case)
  then have all: "removeCells2 g2 (take (cellsToRemove easy) positions) = Inr g3"
    by (simp only: cellsToRemove_def difficulty.case split g2(2))
  have "\<forall>(r, c) \<in> set allCells. r < 9 \<and> c < 9"
    using mem_allCells by blast
  from fixFilledCells_spec [OF g3(2) this]
  obtain g' where g': "fixFilledCells g3 allCells = Inr g'" "emptyCount g' = emptyCount g3"
    by blast
  have "generatePuzzle2 easy exampleRng = Inr g'"
    using run(1) sh all g'(1) by (simp add: generatePuzzle2_def)
  then have "g' = g"
    using run(2) by simp
  then have "emptyCount g \<le> 39"
    using g'(2) g3(3) three len by simp
  then show ?thesis
    using run(2) fixed_plus_empty [OF run(3,4)] by auto
qed

end
